theory Spec2Isabelle
  imports Complex_Main "HOL-Library.AList" "HOL-Library.Multiset"
begin

section \<open>Object states of the simulator: a shallow embedding\<close>

text \<open>
  The development follows the Python sources \<^verbatim>\<open>gibson2/object_states/*.py\<close>,
  \<^verbatim>\<open>gibson2/scenes/igibson_indoor_scene.py\<close> and \<^verbatim>\<open>gibson2/simulator.py\<close>.
  Exceptions are values of \<open>py_error\<close>; a method that can raise returns a sum with the
  error on the left. Python floats are idealised as real numbers, except in the quotient
  of the two timesteps in \<^verbatim>\<open>Simulator.step\<close>, where the rounding of the division decides
  the result and the floats are IEEE 754 doubles.
\<close>

subsection \<open>Exceptions, state classes and dictionary keys\<close>

datatype py_error =
    KeyError
  | AssertionError
  | AttributeError
  | NotImplementedError
  | RuntimeError
  | NetworkXUnfeasible
  | ZeroDivisionError
  | OverflowError
  | ValueError
  | TypeError
  | SystemExit

text \<open>The classes imported at the top of \<^verbatim>\<open>factory.py\<close>.\<close>

datatype state_class =
    Pose | AABB | ContactBodies | OnTop | Open | Inside | NextTo | Under | Touching
  | ToggledOn | Soaked | Dirty | Stained | WaterSource | CleaningTool
  | HeatSource | Temperature | MaxTemperature | Burnt | Cooked

text \<open>
  A key used with a state dictionary is either a \<^verbatim>\<open>str\<close> (as in \<^verbatim>\<open>obj.states["aabb"]\<close>)
  or a class object (as in \<^verbatim>\<open>obj.states[AABB]\<close>). A string and a class object are never
  equal, which the two constructors record.
\<close>

datatype state_key = Name string | Class state_class

subsection \<open>Particles\<close>

type_synonym vec3 = "real \<times> real \<times> real"

text \<open>An axis-aligned bounding box: \<^verbatim>\<open>aabb[0]\<close> is the lower corner, \<^verbatim>\<open>aabb[1]\<close> the upper.\<close>

type_synonym aabb = "vec3 \<times> vec3"

record particle =
  position :: vec3
  active :: bool

text \<open>
  Modelled from the spec: \<^verbatim>\<open>gibson2/objects/particles.py\<close> is missing; the spec's data
  model says a population is a set of particles with a position and an \<open>active\<close> flag,
  that stashing a particle deactivates it without destroying it, and that the counts are
  the number of active particles and the number of all particles.
\<close>

definition stash_particle :: "particle \<Rightarrow> particle" where
  "stash_particle p = p\<lparr>active := False\<rparr>"

definition get_num :: "particle list \<Rightarrow> nat" where
  "get_num ps = length ps"

definition get_active_particles :: "particle list \<Rightarrow> particle list" where
  "get_active_particles ps = filter active ps"

definition get_num_active :: "particle list \<Rightarrow> nat" where
  "get_num_active ps = length (get_active_particles ps)"

subsection \<open>\<^verbatim>\<open>contact_bodies.py\<close>\<close>

text \<open>
  A \<^verbatim>\<open>ContactBodies\<close> instance holds the value cached by its base class (\<open>None\<close> while
  nothing is cached). \<^verbatim>\<open>set_value\<close> raises before it touches the instance; the pair
  returned is the outcome of the call and the instance after it.
\<close>

record 'c ContactBodies_state =
  cached_value :: "'c list option"

definition ContactBodies_set_value ::
  "'v \<Rightarrow> 'c ContactBodies_state \<Rightarrow> (py_error + unit) \<times> 'c ContactBodies_state" where
  "ContactBodies_set_value new_value self = (Inl NotImplementedError, self)"

subsection \<open>\<^verbatim>\<open>stained.py\<close>: the instance and \<^verbatim>\<open>set_value\<close>\<close>

record Stained_state =
  s_value :: bool
  s_prev_value :: bool
  s_stain :: "particle list option"

text \<open>\<^verbatim>\<open>Stained.__init__\<close>\<close>

definition Stained_init :: Stained_state where
  "Stained_init = \<lparr>s_value = False, s_prev_value = False, s_stain = None\<rparr>"

definition Stained_get_value :: "Stained_state \<Rightarrow> bool" where
  "Stained_get_value self = s_value self"

text \<open>
  \<^verbatim>\<open>Stained.set_value\<close> assigns \<^verbatim>\<open>self.value\<close> first; when the new value is false it
  then reads \<^verbatim>\<open>self.stain.particles\<close>, which raises \<^verbatim>\<open>AttributeError\<close> while
  \<^verbatim>\<open>self.stain\<close> is \<^verbatim>\<open>None\<close>.
\<close>

definition Stained_set_value ::
  "bool \<Rightarrow> Stained_state \<Rightarrow> (py_error + unit) \<times> Stained_state" where
  "Stained_set_value new_value self =
     (let self1 = self\<lparr>s_value := new_value\<rparr> in
      if \<not> s_value self1 then
        (case s_stain self1 of
           None \<Rightarrow> (Inl AttributeError, self1)
         | Some particles \<Rightarrow> (Inr (), self1\<lparr>s_stain := Some (map stash_particle particles)\<rparr>))
      else (Inr (), self1))"

subsection \<open>Scene objects and the scene's index by state\<close>

text \<open>
  What \<^verbatim>\<open>get_value()\<close> of a state instance returns: a boolean, a bounding box or
  \<^verbatim>\<open>None\<close>. \<open>truthy\<close> is Python's truth test; \<open>as_aabb\<close> is the indexing
  \<^verbatim>\<open>aabb[0][0]\<close> ... \<^verbatim>\<open>aabb[1][2]\<close>, which raises for a value that is no box.
\<close>

datatype state_value = BoolValue bool | AABBValue aabb | NoneValue

fun truthy :: "state_value \<Rightarrow> bool" where
  "truthy (BoolValue b) = b"
| "truthy (AABBValue box) = True"
| "truthy NoneValue = False"

fun as_aabb :: "state_value \<Rightarrow> py_error + aabb" where
  "as_aabb (AABBValue box) = Inr box"
| "as_aabb (BoolValue b) = Inl TypeError"
| "as_aabb NoneValue = Inl TypeError"

text \<open>\<^verbatim>\<open>obj.states\<close>: a dictionary from keys to state instances, in insertion order.\<close>

record scene_object =
  states :: "(state_key \<times> state_value) list"

text \<open>
  The scene refers to its objects by reference; the model refers to them by their unique
  name. \<open>objects_by_state\<close> maps a key of \<^verbatim>\<open>obj.states\<close> to the objects carrying it.
\<close>

record scene =
  objects_by_name :: "(string \<times> scene_object) list"
  objects_by_state :: "(state_key \<times> string list) list"

definition empty_scene :: scene where
  "empty_scene = \<lparr>objects_by_name = [], objects_by_state = []\<rparr>"

text \<open>
  \<^verbatim>\<open>InteractiveIndoorScene.add_object\<close>, for the object's name and its states (categories
  and rooms are left out): a name already taken ends the process with \<^verbatim>\<open>exit(-1)\<close>;
  then, for each key \<^verbatim>\<open>state\<close> of \<^verbatim>\<open>obj.states\<close>, the object is appended to
  \<^verbatim>\<open>objects_by_state[state]\<close>.
\<close>

definition index_state :: "string \<Rightarrow> (state_key \<times> string list) list \<Rightarrow> state_key
    \<Rightarrow> (state_key \<times> string list) list" where
  "index_state object_name idx state =
     (let idx1 = (if state \<notin> fst ` set idx then AList.update state [] idx else idx)
      in AList.update state ((case map_of idx1 state of None \<Rightarrow> [] | Some l \<Rightarrow> l) @ [object_name]) idx1)"

definition add_object :: "string \<Rightarrow> scene_object \<Rightarrow> scene \<Rightarrow> py_error + scene" where
  "add_object object_name obj sc =
     (if object_name \<in> fst ` set (objects_by_name sc) then Inl SystemExit
      else Inr (sc\<lparr>objects_by_name := AList.update object_name obj (objects_by_name sc),
                   objects_by_state :=
                     foldl (index_state object_name) (objects_by_state sc) (map fst (states obj))\<rparr>))"

definition get_objects :: "scene \<Rightarrow> scene_object list" where
  "get_objects sc = map snd (objects_by_name sc)"

definition get_objects_with_state :: "scene \<Rightarrow> state_key \<Rightarrow> scene_object list" where
  "get_objects_with_state sc state =
     (case map_of (objects_by_state sc) state of
        Some names \<Rightarrow> List.map_filter (map_of (objects_by_name sc)) names
      | None \<Rightarrow> [])"

subsection \<open>The cleaning sweep of \<^verbatim>\<open>dirty.py\<close> and \<^verbatim>\<open>stained.py\<close>\<close>

definition CLEAN_THRESHOLD :: real where
  "CLEAN_THRESHOLD = 0.9"

text \<open>
  The block under the comment \<^verbatim>\<open># inflate aabb\<close>, one axis at a time: the minimum is
  lowered first, and the line that raises the maximum reads the minimum it has just
  lowered.
\<close>

definition inflate_axis :: "real \<Rightarrow> real \<Rightarrow> real \<times> real" where
  "inflate_axis amin0 amax0 =
     (let amin = amin0 - (amax0 - amin0) * 0.1;
          amax = amax0 + (amax0 - amin) * 0.1
      in (amin, amax))"

fun inflate_aabb :: "aabb \<Rightarrow> aabb" where
  "inflate_aabb ((xmin0, ymin0, zmin0), (xmax0, ymax0, zmax0)) =
     (let (xmin, xmax) = inflate_axis xmin0 xmax0;
          (ymin, ymax) = inflate_axis ymin0 ymax0;
          (zmin, zmax) = inflate_axis zmin0 zmax0
      in ((xmin, ymin, zmin), (xmax, ymax, zmax)))"

text \<open>The test of the \<^verbatim>\<open>if\<close> that follows: strict on both sides of all three axes.\<close>

fun strictly_within :: "vec3 \<Rightarrow> aabb \<Rightarrow> bool" where
  "strictly_within (px, py, pz) ((xmin, ymin, zmin), (xmax, ymax, zmax)) =
     (px > xmin \<and> px < xmax \<and> py > ymin \<and> py < ymax \<and> pz > zmin \<and> pz < zmax)"

text \<open>
  The inner loop of \<^verbatim>\<open>Dirty.update\<close> for one cleaning tool. It visits every particle of
  the dust, and reads \<^verbatim>\<open>object.states["aabb"]\<close> once a particle is visited: with no
  particle nothing is looked up, otherwise a tool without that key raises \<^verbatim>\<open>KeyError\<close>.
\<close>

definition Dirty_sweep_tool :: "scene_object \<Rightarrow> particle list \<Rightarrow> py_error + particle list" where
  "Dirty_sweep_tool object particles =
     (if particles = [] then Inr particles
      else case map_of (states object) (Name ''aabb'') of
        None \<Rightarrow> Inl KeyError
      | Some v \<Rightarrow>
          (case as_aabb v of
             Inl e \<Rightarrow> Inl e
           | Inr aabb \<Rightarrow>
               Inr (map (\<lambda>particle.
                      if strictly_within (position particle) (inflate_aabb aabb)
                      then stash_particle particle else particle) particles)))"

text \<open>
  The inner loop of \<^verbatim>\<open>Stained.update\<close> for one wet cleaning tool. It visits the
  particles that are active when the loop starts, and reads \<^verbatim>\<open>object.states[AABB]\<close>,
  with the class as the key.
\<close>

definition Stained_sweep_tool :: "scene_object \<Rightarrow> particle list \<Rightarrow> py_error + particle list" where
  "Stained_sweep_tool object particles =
     (if get_active_particles particles = [] then Inr particles
      else case map_of (states object) (Class AABB) of
        None \<Rightarrow> Inl KeyError
      | Some v \<Rightarrow>
          (case as_aabb v of
             Inl e \<Rightarrow> Inl e
           | Inr aabb \<Rightarrow>
               Inr (map (\<lambda>particle.
                      if active particle \<and> strictly_within (position particle) (inflate_aabb aabb)
                      then stash_particle particle else particle) particles)))"

text \<open>The outer loop over the tools; an exception ends it.\<close>

fun sweep :: "(scene_object \<Rightarrow> particle list \<Rightarrow> py_error + particle list)
    \<Rightarrow> scene_object list \<Rightarrow> particle list \<Rightarrow> py_error + particle list" where
  "sweep f [] particles = Inr particles"
| "sweep f (object # objects) particles =
     (case f object particles of
        Inl e \<Rightarrow> Inl e
      | Inr particles' \<Rightarrow> sweep f objects particles')"

definition count_value :: "particle list \<Rightarrow> bool" where
  "count_value particles =
     (real (get_num_active particles) > real (get_num particles) * CLEAN_THRESHOLD)"

subsection \<open>\<^verbatim>\<open>dirty.py\<close>\<close>

record Dirty_state =
  d_value :: bool
  d_dust :: "particle list"

text \<open>
  \<^verbatim>\<open>Dirty.update\<close>: the tools are those indexed under the string \<^verbatim>\<open>"cleaning_tool"\<close>.
\<close>

definition Dirty_update :: "scene \<Rightarrow> Dirty_state \<Rightarrow> py_error + Dirty_state" where
  "Dirty_update sc self =
     (let cleaning_tools = get_objects_with_state sc (Name ''cleaning_tool'')
      in case sweep Dirty_sweep_tool cleaning_tools (d_dust self) of
           Inl e \<Rightarrow> Inl e
         | Inr dust \<Rightarrow> Inr (self\<lparr>d_dust := dust, d_value := count_value dust\<rparr>))"

subsection \<open>\<^verbatim>\<open>stained.py\<close>: \<^verbatim>\<open>update\<close>\<close>

text \<open>
  \<^verbatim>\<open>Stained.update\<close>. The population \<^verbatim>\<open>Dirt(self.obj)\<close> created on first use and what
  \<^verbatim>\<open>randomize\<close> does to a population are not in the sources and are parameters. The
  tools are those indexed under the class \<^verbatim>\<open>CleaningTool\<close>; a tool is wet when the
  class \<^verbatim>\<open>Soaked\<close> is a key of its states and that state's value is true.
\<close>

definition Stained_update :: "particle list \<Rightarrow> (particle list \<Rightarrow> particle list)
    \<Rightarrow> scene \<Rightarrow> Stained_state \<Rightarrow> py_error + Stained_state" where
  "Stained_update Dirt randomize sc self =
     (if \<not> s_value self then Inr self
      else
        let stain0 = (case s_stain self of None \<Rightarrow> Dirt | Some stain \<Rightarrow> stain);
            stain1 = (if s_value self \<and> \<not> s_prev_value self then randomize stain0 else stain0);
            cleaning_tools = get_objects_with_state sc (Class CleaningTool);
            cleaning_tools_wet =
              filter (\<lambda>tool. case map_of (states tool) (Class Soaked) of
                                None \<Rightarrow> False
                              | Some v \<Rightarrow> truthy v) cleaning_tools
        in case sweep Stained_sweep_tool cleaning_tools_wet stain1 of
             Inl e \<Rightarrow> Inl e
           | Inr stain \<Rightarrow>
               Inr (self\<lparr>s_stain := Some stain,
                         s_prev_value := s_value self,
                         s_value := count_value stain\<rparr>))"

subsection \<open>Concrete inputs\<close>

text \<open>
  A wet cleaning tool whose states are keyed by name, as \<^verbatim>\<open>prepare_object_states\<close> keys
  them, the scene that holds it, and a population of 100 particles of which 90 are active.
\<close>


definition wet_sponge :: scene_object where
  "wet_sponge = \<lparr>states = [(Name ''cleaning_tool'', BoolValue True), (Name ''soaked'', BoolValue True),
      (Name ''aabb'', AABBValue ((0, 0, 0), (10, 10, 10)))]\<rparr>"

definition sponge_scene :: scene where
  "sponge_scene = \<lparr>objects_by_name = [(''sponge'', wet_sponge)],
     objects_by_state = [(Name ''cleaning_tool'', [''sponge'']), (Name ''soaked'', [''sponge'']),
       (Name ''aabb'', [''sponge''])]\<rparr>"

definition ninety_of_hundred :: "particle list" where
  "ninety_of_hundred = replicate 90 \<lparr>position = (0, 0, 0), active = True\<rparr> @
     replicate 10 \<lparr>position = (0, 0, 0), active = False\<rparr>"

subsection \<open>\<^verbatim>\<open>inside.py\<close>\<close>

text \<open>
  Modelled from the spec: \<^verbatim>\<open>gibson2/external/pybullet_tools/utils.py\<close> is missing; the
  spec speaks of the centre of a bounding volume, of its extent along each of the three
  dimensions, of its volume, and of a point lying within a bounding volume. The centre is
  the midpoint of the corners, the extent the difference of the corners, the volume the
  product of the extents, and a point lies within a box when it is between the corners,
  bounds included, on all three axes.
\<close>

fun get_aabb_center :: "aabb \<Rightarrow> vec3" where
  "get_aabb_center ((x0, y0, z0), (x1, y1, z1)) = ((x0 + x1) / 2, (y0 + y1) / 2, (z0 + z1) / 2)"

fun get_aabb_extent :: "aabb \<Rightarrow> vec3" where
  "get_aabb_extent ((x0, y0, z0), (x1, y1, z1)) = (x1 - x0, y1 - y0, z1 - z0)"

definition get_aabb_volume :: "aabb \<Rightarrow> real" where
  "get_aabb_volume box = (case get_aabb_extent box of (ex, ey, ez) \<Rightarrow> ex * ey * ez)"

fun aabb_contains_point :: "vec3 \<Rightarrow> aabb \<Rightarrow> bool" where
  "aabb_contains_point (px, py, pz) ((x0, y0, z0), (x1, y1, z1)) =
     (x0 \<le> px \<and> y0 \<le> py \<and> z0 \<le> pz \<and> px \<le> x1 \<and> py \<le> y1 \<and> pz \<le> z1)"

text \<open>\<^verbatim>\<open>np.sum(np.less_equal(extentA, extentB))\<close>: the number of axes on which A's extent
  is at most B's.\<close>

fun sum_less_equal :: "vec3 \<Rightarrow> vec3 \<Rightarrow> nat" where
  "sum_less_equal (ax, ay, az) (bx, by, bz) =
     (if ax \<le> bx then 1 else 0) + (if ay \<le> by then 1 else 0) + (if az \<le> bz then 1 else 0)"

text \<open>Lines 30 to 35 of \<^verbatim>\<open>Inside.get_value\<close>, on the two boxes.\<close>

definition Inside_value :: "aabb \<Rightarrow> aabb \<Rightarrow> bool" where
  "Inside_value aabbA aabbB =
     (let center_inside = aabb_contains_point (get_aabb_center aabbA) aabbB;
          volume_lesser = (get_aabb_volume aabbA < get_aabb_volume aabbB);
          extentA = get_aabb_extent aabbA;
          extentB = get_aabb_extent aabbB;
          two_dimensions_lesser = (sum_less_equal extentA extentB \<ge> 2);
          above = (center_inside \<and> snd (snd (snd aabbB)) \<le> snd (snd (fst aabbA)))
      in (center_inside \<and> volume_lesser \<and> two_dimensions_lesser) \<or> above)"

text \<open>
  \<^verbatim>\<open>Inside.get_value\<close>: the two assertions that the class \<^verbatim>\<open>AABB\<close> is a key of both
  objects' states, then the value on the two boxes.
\<close>

definition Inside_get_value :: "scene_object \<Rightarrow> scene_object \<Rightarrow> py_error + bool" where
  "Inside_get_value obj other =
     (let objA_states = states obj; objB_states = states other in
      case map_of objA_states (Class AABB) of
        None \<Rightarrow> Inl AssertionError
      | Some vA \<Rightarrow>
          (case map_of objB_states (Class AABB) of
             None \<Rightarrow> Inl AssertionError
           | Some vB \<Rightarrow>
               (case as_aabb vA of
                  Inl e \<Rightarrow> Inl e
                | Inr aabbA \<Rightarrow>
                    (case as_aabb vB of
                       Inl e \<Rightarrow> Inl e
                     | Inr aabbB \<Rightarrow> Inr (Inside_value aabbA aabbB)))))"

text \<open>
  The relation as the specification words it, for comparison: in its second case only
  the x and y ranges of B (its footprint) are asked of A's centre.
\<close>

fun in_footprint :: "vec3 \<Rightarrow> aabb \<Rightarrow> bool" where
  "in_footprint (px, py, pz) ((x0, y0, z0), (x1, y1, z1)) =
     (x0 \<le> px \<and> y0 \<le> py \<and> px \<le> x1 \<and> py \<le> y1)"

definition Inside_as_specified :: "aabb \<Rightarrow> aabb \<Rightarrow> bool" where
  "Inside_as_specified aabbA aabbB =
     ((aabb_contains_point (get_aabb_center aabbA) aabbB \<and>
       get_aabb_volume aabbA < get_aabb_volume aabbB \<and>
       sum_less_equal (get_aabb_extent aabbA) (get_aabb_extent aabbB) \<ge> 2) \<or>
      (in_footprint (get_aabb_center aabbA) aabbB \<and>
       snd (snd (snd aabbB)) \<le> snd (snd (fst aabbA))))"

text \<open>
  Two objects for concrete runs: one whose states were filled by hand under the class
  \<^verbatim>\<open>AABB\<close>, the key \<^verbatim>\<open>Inside.get_value\<close> reads, and one keyed by the name \<^verbatim>\<open>'aabb'\<close>, as
  \<^verbatim>\<open>prepare_object_states\<close> keys every state it creates.
\<close>

definition with_aabb :: "aabb \<Rightarrow> scene_object" where
  "with_aabb box = \<lparr>states = [(Class AABB, AABBValue box)]\<rparr>"

definition with_named_aabb :: "aabb \<Rightarrow> scene_object" where
  "with_named_aabb box = \<lparr>states = [(Name ''aabb'', AABBValue box)]\<rparr>"

subsection \<open>Python floats: division and \<^verbatim>\<open>int()\<close>\<close>

text \<open>
  A Python \<^verbatim>\<open>float\<close> is an IEEE 754 double. \<open>Finite s m e\<close> stands for the number
  \<open>m * 2 ^ e\<close>, negated when the sign \<open>s\<close> is set; a double has \<open>m < 2 ^ 53\<close> and
  \<open>- 1074 \<le> e \<le> 971\<close>. The two infinities and NaN are the remaining values.
\<close>

datatype float64 = Finite bool nat int | Infinity bool | NaN

text \<open>\<^verbatim>\<open>int.bit_length()\<close>: the number of binary digits of a natural number.\<close>

fun bit_length :: "nat \<Rightarrow> nat" where
  "bit_length n = (if n = 0 then 0 else Suc (bit_length (n div 2)))"

declare bit_length.simps [simp del]

text \<open>The fraction \<open>num / den\<close> rounded to the nearest integer, a tie going to the even
  neighbour.\<close>

definition round_half_even :: "nat \<Rightarrow> nat \<Rightarrow> nat" where
  "round_half_even num den =
     (let n = num div den; r = num mod den
      in if 2 * r > den \<or> (2 * r = den \<and> odd n) then n + 1 else n)"

text \<open>The integer \<open>L\<close> with \<open>2 ^ L \<le> m1 / m2 < 2 ^ (L + 1)\<close>, for positive \<open>m1\<close> and \<open>m2\<close>.\<close>

definition floor_log2_quotient :: "nat \<Rightarrow> nat \<Rightarrow> int" where
  "floor_log2_quotient m1 m2 =
     (let b1 = bit_length m1; b2 = bit_length m2
      in if m2 * 2 ^ b1 \<le> m1 * 2 ^ b2 then int b1 - int b2 else int b1 - int b2 - 1)"

text \<open>
  The quotient of two non-zero finite doubles, rounded as the hardware rounds it (to
  nearest, ties to even): the exponent \<open>e\<close> of the result leaves 53 digits to the
  quotient, or is the least exponent \<open>- 1074\<close> when the quotient is subnormal; the
  quotient is rounded to a multiple of \<open>2 ^ e\<close>; a result of \<open>2 ^ 1024\<close> or more is an
  infinity. A significand that rounds up to \<open>2 ^ 53\<close> is kept with its exponent, which is
  the same number as \<open>2 ^ 52\<close> with the next exponent.
\<close>

definition round_quotient :: "bool \<Rightarrow> nat \<Rightarrow> int \<Rightarrow> nat \<Rightarrow> int \<Rightarrow> float64" where
  "round_quotient s m1 e1 m2 e2 =
     (let e = max (- 1074) (floor_log2_quotient m1 m2 + (e1 - e2) - 52);
          d = e1 - e2 - e;
          m = (if d \<ge> 0 then round_half_even (m1 * 2 ^ nat d) m2
               else round_half_even m1 (m2 * 2 ^ nat (- d)))
      in if e > 971 \<or> (e = 971 \<and> m = 2 ^ 53) then Infinity s else Finite s m e)"

text \<open>
  \<^verbatim>\<open>x / y\<close> on floats: Python raises \<^verbatim>\<open>ZeroDivisionError\<close> when the divisor is zero (of
  either sign, whatever the dividend) and leaves every other case to the hardware.
\<close>

fun float_truediv :: "float64 \<Rightarrow> float64 \<Rightarrow> py_error + float64" where
  "float_truediv (Finite s m1 e1) (Finite t m2 e2) =
     (if m2 = 0 then Inl ZeroDivisionError
      else if m1 = 0 then Inr (Finite (s \<noteq> t) 0 0)
      else Inr (round_quotient (s \<noteq> t) m1 e1 m2 e2))"
| "float_truediv (Infinity s) (Finite t m2 e2) =
     (if m2 = 0 then Inl ZeroDivisionError else Inr (Infinity (s \<noteq> t)))"
| "float_truediv NaN (Finite t m2 e2) =
     (if m2 = 0 then Inl ZeroDivisionError else Inr NaN)"
| "float_truediv (Finite s m1 e1) (Infinity t) = Inr (Finite (s \<noteq> t) 0 0)"
| "float_truediv (Infinity s) (Infinity t) = Inr NaN"
| "float_truediv NaN (Infinity t) = Inr NaN"
| "float_truediv x NaN = Inr NaN"

text \<open>
  \<^verbatim>\<open>int(x)\<close> of a float truncates towards zero; it raises \<^verbatim>\<open>OverflowError\<close> for an
  infinity and \<^verbatim>\<open>ValueError\<close> for NaN.
\<close>

fun py_int :: "float64 \<Rightarrow> py_error + int" where
  "py_int (Finite s m e) =
     (let a = (if e \<ge> 0 then int m * 2 ^ nat e else int m div 2 ^ nat (- e))
      in Inr (if s then - a else a))"
| "py_int (Infinity s) = Inl OverflowError"
| "py_int NaN = Inl ValueError"

subsection \<open>\<^verbatim>\<open>simulator.py\<close>: \<^verbatim>\<open>step\<close>\<close>

text \<open>
  A step is observed through the calls it makes, in order: a physics substep
  (\<^verbatim>\<open>p.stepSimulation()\<close>), the update of one state of one object, the renderer sync, and
  the calls that end a VR frame. The update hooks are taken to return.
\<close>

datatype event =
    StepSimulation
  | StateUpdate state_key string
  | Sync
  | SyncVRCompositor
  | PollVREvents
  | FixEyeTrackingValue
  | PerformVRStartPosMove
  | UpdateVRData

record simulator =
  can_access_vr_context :: bool
  physics_timestep :: float64
  render_timestep :: float64
  num_phys_steps :: int
  object_state_names :: "state_key list"
  sim_scene :: "scene option"

text \<open>
  \<^verbatim>\<open>_non_physics_step\<close>: for each state name of the global order, for each object of the
  scene, the state is updated if the name is a key of the object's states. Reading
  \<^verbatim>\<open>self.scene.get_objects()\<close> raises while no scene is imported.
\<close>

definition carriers :: "scene \<Rightarrow> state_key \<Rightarrow> string list" where
  "carriers sc state_name =
     map fst (filter (\<lambda>(name, obj). state_name \<in> fst ` set (states obj)) (objects_by_name sc))"

definition non_physics_step :: "simulator \<Rightarrow> py_error + event list" where
  "non_physics_step sim =
     (if object_state_names sim = [] then Inr []
      else case sim_scene sim of
        None \<Rightarrow> Inl AttributeError
      | Some sc \<Rightarrow>
          Inr (concat (map (\<lambda>state_name. map (StateUpdate state_name) (carriers sc state_name))
                 (object_state_names sim))))"

text \<open>
  \<^verbatim>\<open>forced_timestep if forced_timestep else max(1, int(render / physics))\<close>: a forced
  timestep of \<^verbatim>\<open>None\<close> or 0 is false, and only then the quotient of the two timesteps
  (floats, as the defaults \<^verbatim>\<open>1 / 30.0\<close> and \<^verbatim>\<open>1 / 120.0\<close> of the constructor are) is
  computed, rounded to a double, and truncated.
\<close>

definition physics_timestep_num :: "simulator \<Rightarrow> int option \<Rightarrow> py_error + int" where
  "physics_timestep_num sim forced_timestep =
     (if forced_timestep \<noteq> None \<and> forced_timestep \<noteq> Some 0 then Inr (the forced_timestep)
      else case float_truediv (render_timestep sim) (physics_timestep sim) of
        Inl e \<Rightarrow> Inl e
      | Inr q \<Rightarrow>
          (case py_int q of
             Inl e \<Rightarrow> Inl e
           | Inr n \<Rightarrow> Inr (max 1 n)))"

text \<open>The loop \<^verbatim>\<open>for _ in range(physics_timestep_num)\<close>, common to both step functions.\<close>

fun substeps :: "nat \<Rightarrow> simulator \<Rightarrow> py_error + event list" where
  "substeps 0 sim = Inr []"
| "substeps (Suc k) sim =
     (case non_physics_step sim of
        Inl e \<Rightarrow> Inl e
      | Inr updates \<Rightarrow>
          (case substeps k sim of
             Inl e \<Rightarrow> Inl e
           | Inr rest \<Rightarrow> Inr (StepSimulation # updates @ rest)))"

definition step_vr :: "simulator \<Rightarrow> py_error + event list" where
  "step_vr sim =
     (if sim_scene sim = None then Inl AssertionError
      else case substeps (nat (num_phys_steps sim)) sim of
        Inl e \<Rightarrow> Inl e
      | Inr evs \<Rightarrow>
          Inr (evs @ [Sync, SyncVRCompositor, PollVREvents, FixEyeTrackingValue,
                      PerformVRStartPosMove, UpdateVRData]))"

definition step :: "simulator \<Rightarrow> int option \<Rightarrow> py_error + event list" where
  "step sim forced_timestep =
     (if can_access_vr_context sim then step_vr sim
      else case physics_timestep_num sim forced_timestep of
        Inl e \<Rightarrow> Inl e
      | Inr n \<Rightarrow>
          (case substeps (nat n) sim of
             Inl e \<Rightarrow> Inl e
           | Inr evs \<Rightarrow> Inr (evs @ [Sync])))"

text \<open>
  The step as the specification words it, for comparison: all physics substeps, then one
  scheduler pass, then the renderer sync.
\<close>

definition step_as_specified :: "simulator \<Rightarrow> int option \<Rightarrow> py_error + event list" where
  "step_as_specified sim forced_timestep =
     (case physics_timestep_num sim forced_timestep of
        Inl e \<Rightarrow> Inl e
      | Inr n \<Rightarrow>
          (case non_physics_step sim of
             Inl e \<Rightarrow> Inl e
           | Inr updates \<Rightarrow> Inr (replicate (nat n) StepSimulation @ updates @ [Sync])))"

definition dusty_table :: scene_object where
  "dusty_table = \<lparr>states = [(Name ''dirty'', BoolValue True)]\<rparr>"

text \<open>
  The doubles nearest to 1/120, 1/30, 1/45, 1/15, 1/600 and 1/24, as Python's
  \<^verbatim>\<open>float.hex\<close> shows them: \<open>1 / 30.0\<close> is \<^verbatim>\<open>0x1.1111111111111p-5\<close>, that is
  \<open>4803839602528529 * 2 ^ (- 57)\<close>.
\<close>

definition one_120th :: float64 where "one_120th = Finite False 4803839602528529 (- 59)"
definition one_30th :: float64 where "one_30th = Finite False 4803839602528529 (- 57)"
definition one_45th :: float64 where "one_45th = Finite False 6405119470038039 (- 58)"
definition one_15th :: float64 where "one_15th = Finite False 4803839602528529 (- 56)"
definition one_600th :: float64 where "one_600th = Finite False 7686143364045647 (- 62)"
definition one_24th :: float64 where "one_24th = Finite False 6004799503160661 (- 57)"

definition table_simulator :: simulator where
  "table_simulator =
     \<lparr>can_access_vr_context = False, physics_timestep = one_120th, render_timestep = one_30th,
      num_phys_steps = 1, object_state_names = [Name ''aabb'', Name ''dirty''],
      sim_scene = Some \<lparr>objects_by_name = [(''table'', dusty_table)],
                        objects_by_state = [(Name ''dirty'', [''table''])]\<rparr>\<rparr>"

subsection \<open>\<^verbatim>\<open>factory.py\<close>: the registry\<close>

definition STATE_NAME_TO_CLASS_MAPPING :: "(string \<times> state_class) list" where
  "STATE_NAME_TO_CLASS_MAPPING =
     [(''pose'', Pose), (''aabb'', AABB), (''contact_bodies'', ContactBodies),
      (''onTop'', OnTop), (''open'', Open), (''inside'', Inside), (''nextTo'', NextTo),
      (''under'', Under), (''touching'', Touching), (''toggled_on'', ToggledOn),
      (''soaked'', Soaked), (''dirty'', Dirty), (''stained'', Stained),
      (''water_source'', WaterSource), (''cleaning_tool'', CleaningTool),
      (''heatSource'', HeatSource), (''temperature'', Temperature),
      (''maxTemperature'', MaxTemperature), (''burnt'', Burnt), (''cooked'', Cooked)]"

definition ABILITY_TO_STATE_MAPPING :: "(string \<times> string list) list" where
  "ABILITY_TO_STATE_MAPPING =
     [(''cookable'', [''cooked'']), (''soakable'', [''soaked'']), (''dustable'', [''dirty'']),
      (''scrubbable'', [''stained'']), (''water_source'', [''water_source'']),
      (''cleaning_tool'', [''cleaning_tool'']), (''toggleable'', [''toggled_on'']),
      (''burnable'', [''burnt'']), (''heatSource'', [''heatSource''])]"

definition DEFAULT_STATE_SET :: "string set" where
  "DEFAULT_STATE_SET = {''onTop'', ''inside'', ''nextTo'', ''under'', ''touching'', ''open''}"

definition get_default_state_names :: "string set" where
  "get_default_state_names = DEFAULT_STATE_SET"

definition get_all_state_names :: "string set" where
  "get_all_state_names = fst ` set STATE_NAME_TO_CLASS_MAPPING"

definition get_state_names_for_ability :: "string \<Rightarrow> py_error + string list" where
  "get_state_names_for_ability ability =
     (case map_of ABILITY_TO_STATE_MAPPING ability of
        None \<Rightarrow> Inl KeyError
      | Some state_names \<Rightarrow> Inr state_names)"

text \<open>
  \<^verbatim>\<open>_STATE_NAME_TO_CLASS_MAPPING[state_name]\<close> for a key that may be a string or a class
  object: the dictionary has string keys only.
\<close>

fun lookup_class :: "state_key \<Rightarrow> state_class option" where
  "lookup_class (Name state_name) = map_of STATE_NAME_TO_CLASS_MAPPING state_name"
| "lookup_class (Class c) = None"

text \<open>
  The parameters of an ability or a state: a dictionary \<^verbatim>\<open>{param: value}\<close>, passed to the
  state's constructor as keyword arguments.
\<close>

type_synonym 'v params = "(string \<times> 'v) list"

text \<open>
  Of the state classes only \<^verbatim>\<open>Dirty\<close>, \<^verbatim>\<open>Stained\<close>, \<^verbatim>\<open>ContactBodies\<close> and \<^verbatim>\<open>Inside\<close>
  are among the sources. What the other classes declare is a parameter of the model:
  their required and optional dependencies, which keyword arguments their constructors
  accept, and the required dependencies of \<^verbatim>\<open>DummyState\<close>.
\<close>

record 'v class_declarations =
  declared_dependencies :: "state_class \<Rightarrow> state_key list"
  declared_optional_dependencies :: "state_class \<Rightarrow> state_key list"
  constructor_accepts :: "state_class \<Rightarrow> 'v params \<Rightarrow> bool"
  dummy_dependencies :: "state_key list"

text \<open>
  \<^verbatim>\<open>get_dependencies\<close> and \<^verbatim>\<open>get_optional_dependencies\<close>: \<^verbatim>\<open>Dirty\<close> names its
  dependencies by strings, \<^verbatim>\<open>Stained\<close> by class objects.
\<close>

definition get_dependencies :: "'v class_declarations \<Rightarrow> state_class \<Rightarrow> state_key list" where
  "get_dependencies decls c =
     (if c = Dirty then [Name ''aabb'']
      else if c = Stained then [Class AABB]
      else declared_dependencies decls c)"

definition get_optional_dependencies :: "'v class_declarations \<Rightarrow> state_class \<Rightarrow> state_key list" where
  "get_optional_dependencies decls c =
     (if c = Dirty then [Name ''cleaning_tool'']
      else if c = Stained then [Class Soaked, Class CleaningTool]
      else declared_optional_dependencies decls c)"

text \<open>
  \<^verbatim>\<open>state_class(obj, **params)\<close>: the constructors of \<^verbatim>\<open>Dirty\<close> and \<^verbatim>\<open>Stained\<close> take the
  object only, so any keyword argument raises \<^verbatim>\<open>TypeError\<close>.
\<close>

definition accepts :: "'v class_declarations \<Rightarrow> state_class \<Rightarrow> 'v params \<Rightarrow> bool" where
  "accepts decls c params =
     (if c = Dirty \<or> c = Stained then params = [] else constructor_accepts decls c params)"

datatype 'v state_instance = StateInstance state_class "'v params" | DummyState

fun instance_dependencies :: "'v class_declarations \<Rightarrow> 'v state_instance \<Rightarrow> state_key list" where
  "instance_dependencies decls (StateInstance c params) = get_dependencies decls c"
| "instance_dependencies decls DummyState = dummy_dependencies decls"

definition get_object_state_instance ::
  "'v class_declarations \<Rightarrow> state_key \<Rightarrow> 'v params option \<Rightarrow> bool \<Rightarrow> py_error + 'v state_instance" where
  "get_object_state_instance decls state_name params online =
     (case lookup_class state_name of
        None \<Rightarrow> Inl AssertionError
      | Some state_class \<Rightarrow>
          if \<not> online then Inr DummyState
          else
            let params = (case params of None \<Rightarrow> [] | Some ps \<Rightarrow> ps)
            in if accepts decls state_class params then Inr (StateInstance state_class params)
               else Inl TypeError)"

subsection \<open>\<^verbatim>\<open>factory.py\<close>: \<^verbatim>\<open>prepare_object_states\<close>\<close>

text \<open>
  The work list \<^verbatim>\<open>state_names_and_params\<close> holds pairs \<^verbatim>\<open>(state_name, params)\<close>. The test
  \<^verbatim>\<open>dependency not in state_names_and_params\<close> compares a dependency, a string or a class
  object, with these pairs; Python's \<^verbatim>\<open>==\<close> between a string or a class and a tuple is
  false.
\<close>

definition key_eq_entry :: "state_key \<Rightarrow> state_key \<times> 'v params \<Rightarrow> bool" where
  "key_eq_entry dependency entry = False"

definition add_dependency ::
  "(state_key \<times> 'v params) list \<Rightarrow> state_key \<Rightarrow> (state_key \<times> 'v params) list" where
  "add_dependency state_names_and_params dependency =
     (if \<not> (\<exists>entry \<in> set state_names_and_params. key_eq_entry dependency entry)
      then state_names_and_params @ [(dependency, [])]
      else state_names_and_params)"

text \<open>
  The loop \<^verbatim>\<open>for state_name, params in state_names_and_params\<close>, which visits the entries
  appended while it runs: \<open>i\<close> is the position of the iterator. The call of
  \<^verbatim>\<open>get_object_state_instance\<close> leaves \<^verbatim>\<open>online\<close> at its default, true. The loop need not
  end (a state that requires itself is appended forever), so not returning is \<open>None\<close>.
\<close>

partial_function (option) prepare_loop ::
  "'v class_declarations \<Rightarrow> (state_key \<times> 'v params) list \<Rightarrow> nat
     \<Rightarrow> (state_key \<times> 'v state_instance) list \<Rightarrow> (py_error + (state_key \<times> 'v state_instance) list) option" where
  "prepare_loop decls state_names_and_params i obj_states =
     (if i \<ge> length state_names_and_params then Some (Inr obj_states)
      else
        case get_object_state_instance decls (fst (state_names_and_params ! i))
               (Some (snd (state_names_and_params ! i))) True of
          Inl e \<Rightarrow> Some (Inl e)
        | Inr inst \<Rightarrow>
            prepare_loop decls
              (foldl add_dependency state_names_and_params (instance_dependencies decls inst))
              (Suc i)
              (AList.update (fst (state_names_and_params ! i)) inst obj_states))"

declare prepare_loop.simps [code]

text \<open>The loop over \<^verbatim>\<open>abilities.items()\<close> that extends the work list.\<close>

fun extend_with_abilities :: "(string \<times> 'v params) list \<Rightarrow> (state_key \<times> 'v params) list
    \<Rightarrow> py_error + (state_key \<times> 'v params) list" where
  "extend_with_abilities [] state_names_and_params = Inr state_names_and_params"
| "extend_with_abilities ((ability, params) # abilities) state_names_and_params =
     (case get_state_names_for_ability ability of
        Inl e \<Rightarrow> Inl e
      | Inr state_names \<Rightarrow>
          extend_with_abilities abilities
            (state_names_and_params @ map (\<lambda>state_name. (Name state_name, params)) state_names))"

text \<open>
  \<^verbatim>\<open>prepare_object_states\<close>. \<open>default_order\<close> is the order in which Python enumerates
  the set \<^verbatim>\<open>get_default_state_names()\<close>. The object's previous states are dropped
  (\<^verbatim>\<open>obj.states = dict()\<close>); the result is the new dictionary. The argument \<^verbatim>\<open>online\<close> is
  not used by the body.
\<close>

definition prepare_object_states ::
  "'v class_declarations \<Rightarrow> string list \<Rightarrow> (state_key \<times> 'v state_instance) list
     \<Rightarrow> (string \<times> 'v params) list option \<Rightarrow> bool
     \<Rightarrow> (py_error + (state_key \<times> 'v state_instance) list) option" where
  "prepare_object_states decls default_order old_states abilities online =
     (let abilities = (case abilities of None \<Rightarrow> [] | Some a \<Rightarrow> a);
          state_names_and_params = map (\<lambda>state_name. (Name state_name, [])) default_order
      in case extend_with_abilities abilities state_names_and_params of
           Inl e \<Rightarrow> Some (Inl e)
         | Inr state_names_and_params \<Rightarrow> prepare_loop decls state_names_and_params 0 [])"

subsection \<open>\<^verbatim>\<open>networkx\<close>: directed graphs and \<^verbatim>\<open>topological_sort\<close>\<close>

text \<open>
  The library \<^verbatim>\<open>networkx\<close> is not part of the sources; what \<^verbatim>\<open>factory.py\<close> uses of it is
  modelled after the library. A directed graph is its adjacency dictionary: every node
  has an entry, in the order the nodes were added, with its successors in the order the
  edges were added. \<^verbatim>\<open>nx.DiGraph(d)\<close> for a dictionary of lists adds the keys as nodes and
  then one edge for each key and each element of its list; adding an edge adds the nodes
  it lacks, and an edge that is already there is not added again.
\<close>

type_synonym 'n digraph = "('n \<times> 'n list) list"

definition add_node :: "'n digraph \<Rightarrow> 'n \<Rightarrow> 'n digraph" where
  "add_node G n = (if n \<in> fst ` set G then G else G @ [(n, [])])"

definition successors :: "'n digraph \<Rightarrow> 'n \<Rightarrow> 'n list" where
  "successors G u = (case map_of G u of None \<Rightarrow> [] | Some vs \<Rightarrow> vs)"

definition add_edge :: "'n digraph \<Rightarrow> 'n \<times> 'n \<Rightarrow> 'n digraph" where
  "add_edge G e =
     (let G2 = add_node (add_node G (fst e)) (snd e)
      in if snd e \<in> set (successors G2 (fst e)) then G2
         else AList.update (fst e) (successors G2 (fst e) @ [snd e]) G2)"

definition DiGraph :: "('n \<times> 'n list) list \<Rightarrow> 'n digraph" where
  "DiGraph d =
     foldl add_edge (foldl add_node [] (map fst d))
       (concat (map (\<lambda>(node, nbrlist). map (Pair node) nbrlist) d))"

text \<open>\<^verbatim>\<open>G.in_degree()\<close>: for each node, the number of nodes it is a successor of.\<close>

definition in_degree :: "'n digraph \<Rightarrow> ('n \<times> int) list" where
  "in_degree G = map (\<lambda>(v, _). (v, int (length (filter (\<lambda>(u, vs). v \<in> set vs) G)))) G"

text \<open>
  \<^verbatim>\<open>topological_sort\<close> is Kahn's algorithm. For each successor of the node taken from the
  stack the remaining in-degree is decremented, and a successor whose in-degree reaches
  zero is pushed and removed from the in-degree map; a successor missing from the map
  raises \<^verbatim>\<open>RuntimeError\<close>.
\<close>

fun relax_children :: "'n list \<Rightarrow> ('n \<times> int) list \<times> 'n list
    \<Rightarrow> py_error + ('n \<times> int) list \<times> 'n list" where
  "relax_children [] s = Inr s"
| "relax_children (child # children) (indegree_map, zero_indegree) =
     (case map_of indegree_map child of
        None \<Rightarrow> Inl RuntimeError
      | Some d \<Rightarrow>
          let indegree_map1 = AList.update child (d - 1) indegree_map
          in if d - 1 = 0
             then relax_children children (AList.delete child indegree_map1, zero_indegree @ [child])
             else relax_children children (indegree_map1, zero_indegree))"

text \<open>
  The \<^verbatim>\<open>while zero_indegree\<close> loop. The nodes yielded so far are \<open>out\<close>; a caller that
  collects the generator into a list gets the list only if no exception is raised, and
  \<^verbatim>\<open>NetworkXUnfeasible\<close> is raised at the end if the in-degree map is not empty.
\<close>

function topo_loop :: "'n digraph \<Rightarrow> ('n \<times> int) list \<Rightarrow> 'n list \<Rightarrow> 'n list
    \<Rightarrow> py_error + 'n list" where
  "topo_loop G indegree_map zero_indegree out =
     (if zero_indegree = [] then
        (if indegree_map \<noteq> [] then Inl NetworkXUnfeasible else Inr out)
      else
        case map_of G (last zero_indegree) of
          None \<Rightarrow> Inl RuntimeError
        | Some children \<Rightarrow>
            (case relax_children children (indegree_map, butlast zero_indegree) of
               Inl e \<Rightarrow> Inl e
             | Inr s \<Rightarrow> topo_loop G (fst s) (snd s) (out @ [last zero_indegree])))"
  by pat_completeness auto
termination
proof (relation "measure (\<lambda>(G, indegree_map, zero_indegree, out).
    length indegree_map + length zero_indegree)")
  show "wf (measure (\<lambda>(G, indegree_map, zero_indegree, out).
    length indegree_map + length zero_indegree))"
    by simp
next
  fix G :: "'n digraph" and indegree_map :: "('n \<times> int) list"
    and zero_indegree out children :: "'n list" and s :: "('n \<times> int) list \<times> 'n list"
  assume nonempty: "zero_indegree \<noteq> []"
    and relaxed: "relax_children children (indegree_map, butlast zero_indegree) = Inr s"
  have upd: "length (AList.update k v al) = length al" if "k \<in> fst ` set al"
    for k :: 'n and v :: int and al
    using that by (induction al) auto
  have del: "length (AList.delete k al) < length al" if "k \<in> fst ` set al"
    for k :: 'n and al :: "('n \<times> int) list"
    using that
  proof (induction al)
    case Nil
    then show ?case by simp
  next
    case (Cons a al)
    show ?case
    proof (cases "fst a = k")
      case True
      then show ?thesis
        using length_delete_le [of k al] by (cases a) simp
    next
      case False
      with Cons.prems have "k \<in> fst ` set al" by auto
      from Cons.IH [OF this] False show ?thesis by (cases a) simp
    qed
  qed
  have no_growth: "length (fst s') + length (snd s') \<le> length (fst s0) + length (snd s0)"
    if "relax_children cs s0 = Inr s'" for cs :: "'n list" and s0 s'
    using that
  proof (induction cs s0 rule: relax_children.induct)
    case (1 s)
    then show ?case by simp
  next
    case (2 child children indegree_map zero_indegree)
    from "2.prems" obtain d where d: "map_of indegree_map child = Some d"
      by (auto split: option.splits)
    then have key: "child \<in> fst ` set indegree_map"
      by (metis domI dom_map_of_conv_image_fst)
    show ?case
    proof (cases "d - 1 = 0")
      case True
      with "2.IH"(1) [OF d refl True] "2.prems" d del [OF key] show ?thesis
        by (simp add: Let_def delete_update_same)
    next
      case False
      with "2.IH"(2) [OF d refl False] "2.prems" d upd [OF key] show ?thesis
        by (simp add: Let_def)
    qed
  qed
  from no_growth [OF relaxed] nonempty
  show "((G, fst s, snd s, out @ [last zero_indegree]), (G, indegree_map, zero_indegree, out))
      \<in> measure (\<lambda>(G, indegree_map, zero_indegree, out). length indegree_map + length zero_indegree)"
    by (cases zero_indegree rule: rev_cases) auto
qed

declare topo_loop.simps [simp del]

definition topological_sort :: "'n digraph \<Rightarrow> py_error + 'n list" where
  "topological_sort G =
     (let indegree_map = filter (\<lambda>(v, d). d > 0) (in_degree G);
          zero_indegree = map fst (filter (\<lambda>(v, d). d = 0) (in_degree G))
      in topo_loop G indegree_map zero_indegree [])"

subsection \<open>\<^verbatim>\<open>factory.py\<close>: the dependency order\<close>

text \<open>
  \<^verbatim>\<open>get_state_dependency_graph\<close>. \<open>all_order\<close> is the order in which Python enumerates
  the set \<^verbatim>\<open>get_all_state_names()\<close>; each name is looked up in the registry, and its
  entry lists its required dependencies followed by its optional ones.
\<close>

fun dependencies_dict :: "'v class_declarations \<Rightarrow> string list
    \<Rightarrow> py_error + (state_key \<times> state_key list) list" where
  "dependencies_dict decls [] = Inr []"
| "dependencies_dict decls (state_name # state_names) =
     (case map_of STATE_NAME_TO_CLASS_MAPPING state_name of
        None \<Rightarrow> Inl KeyError
      | Some c \<Rightarrow>
          (case dependencies_dict decls state_names of
             Inl e \<Rightarrow> Inl e
           | Inr rest \<Rightarrow>
               Inr ((Name state_name,
                     get_dependencies decls c @ get_optional_dependencies decls c) # rest)))"

definition get_state_dependency_graph ::
  "'v class_declarations \<Rightarrow> string list \<Rightarrow> py_error + state_key digraph" where
  "get_state_dependency_graph decls all_order =
     (case dependencies_dict decls all_order of
        Inl e \<Rightarrow> Inl e
      | Inr dependencies \<Rightarrow> Inr (DiGraph dependencies))"

definition get_states_by_dependency_order ::
  "'v class_declarations \<Rightarrow> string list \<Rightarrow> py_error + state_key list" where
  "get_states_by_dependency_order decls all_order =
     (case get_state_dependency_graph decls all_order of
        Inl e \<Rightarrow> Inl e
      | Inr G \<Rightarrow>
          (case topological_sort G of
             Inl e \<Rightarrow> Inl e
           | Inr order \<Rightarrow> Inr (rev order)))"

text \<open>Class declarations for concrete runs: no further dependencies, any parameters.\<close>

definition plain_declarations :: "unit class_declarations" where
  "plain_declarations =
     \<lparr>declared_dependencies = (\<lambda>c. []), declared_optional_dependencies = (\<lambda>c. []),
      constructor_accepts = (\<lambda>c params. True), dummy_dependencies = []\<rparr>"

subsection \<open>Notions used to state the properties of the dependency order\<close>

definition nodes :: "'n digraph \<Rightarrow> 'n set" where
  "nodes G = fst ` set G"

definition edge :: "'n digraph \<Rightarrow> 'n \<Rightarrow> 'n \<Rightarrow> bool" where
  "edge G u v = (v \<in> set (successors G u))"

definition predecessors :: "'n digraph \<Rightarrow> 'n \<Rightarrow> 'n set" where
  "predecessors G v = {u. edge G u v}"

text \<open>A well-formed adjacency dictionary: one entry per node, no successor listed twice,
  and every successor is a node.\<close>

definition wf_digraph :: "'n digraph \<Rightarrow> bool" where
  "wf_digraph G =
     (distinct (map fst G) \<and> (\<forall>u. distinct (successors G u)) \<and>
      (\<forall>u v. edge G u v \<longrightarrow> u \<in> nodes G \<and> v \<in> nodes G))"

text \<open>A list is topologically sorted when every node comes after all its predecessors.\<close>

definition topo_sorted :: "'n digraph \<Rightarrow> 'n list \<Rightarrow> bool" where
  "topo_sorted G out = (\<forall>xs v ys. out = xs @ v # ys \<longrightarrow> predecessors G v \<subseteq> set xs)"

text \<open>The invariant of the loop of \<open>topo_loop\<close>.\<close>

definition kahn_inv :: "'n digraph \<Rightarrow> ('n \<times> int) list \<Rightarrow> 'n list \<Rightarrow> 'n list \<Rightarrow> bool" where
  "kahn_inv G indegree_map zero_indegree out =
     (distinct zero_indegree \<and> distinct out \<and>
      set out \<inter> set zero_indegree = {} \<and>
      set out \<inter> dom (map_of indegree_map) = {} \<and>
      set zero_indegree \<inter> dom (map_of indegree_map) = {} \<and>
      set out \<union> set zero_indegree \<union> dom (map_of indegree_map) = nodes G \<and>
      (\<forall>v \<in> set zero_indegree. predecessors G v \<subseteq> set out) \<and>
      (\<forall>v d. map_of indegree_map v = Some d \<longrightarrow>
         d = int (card (predecessors G v - set out)) \<and> d > 0) \<and>
      topo_sorted G out)"

text \<open>The registered dependency relation: a registered state name and one of its
  required or optional dependencies.\<close>

definition state_dependencies :: "'v class_declarations \<Rightarrow> string \<Rightarrow> state_key list" where
  "state_dependencies decls state_name =
     (case map_of STATE_NAME_TO_CLASS_MAPPING state_name of
        None \<Rightarrow> []
      | Some c \<Rightarrow> get_dependencies decls c @ get_optional_dependencies decls c)"

definition dependency_edges :: "'v class_declarations \<Rightarrow> (state_key \<times> state_key) set" where
  "dependency_edges decls =
     {(Name state_name, dependency) | state_name dependency.
        state_name \<in> get_all_state_names \<and> dependency \<in> set (state_dependencies decls state_name)}"

text \<open>\<open>x\<close> appears strictly before \<open>y\<close> in a list.\<close>

definition appears_before :: "'a \<Rightarrow> 'a \<Rightarrow> 'a list \<Rightarrow> bool" where
  "appears_before x y l = (\<exists>xs ys zs. l = xs @ x # ys @ y # zs)"

text \<open>Class declarations with a cycle: \<^verbatim>\<open>Pose\<close> requires \<^verbatim>\<open>"aabb"\<close> and \<^verbatim>\<open>AABB\<close> requires
  \<^verbatim>\<open>"pose"\<close>.\<close>

definition cyclic_declarations :: "unit class_declarations" where
  "cyclic_declarations =
     \<lparr>declared_dependencies =
        (\<lambda>c. if c = Pose then [Name ''aabb''] else if c = AABB then [Name ''pose''] else []),
      declared_optional_dependencies = (\<lambda>c. []),
      constructor_accepts = (\<lambda>c params. True), dummy_dependencies = []\<rparr>"

subsection \<open>Notions used to state the properties of \<^verbatim>\<open>prepare_object_states\<close>\<close>

text \<open>The required-dependency relation between dictionary keys: a registered state name
  and one of the required dependencies of its class.\<close>

definition required_edges :: "'v class_declarations \<Rightarrow> (state_key \<times> state_key) set" where
  "required_edges decls =
     {(k, d). \<exists>c. lookup_class k = Some c \<and> d \<in> set (get_dependencies decls c)}"

text \<open>The state names implied by the declared abilities.\<close>

definition ability_state_names :: "(string \<times> 'v params) list \<Rightarrow> string set" where
  "ability_state_names abilities =
     {state_name. \<exists>ability \<in> fst ` set abilities. \<exists>state_names.
        map_of ABILITY_TO_STATE_MAPPING ability = Some state_names \<and> state_name \<in> set state_names}"

text \<open>The key set the specification asks for: the default states, the states implied by
  the abilities, and everything reachable from them along required dependencies.\<close>

definition expected_keys :: "'v class_declarations \<Rightarrow> (string \<times> 'v params) list
    \<Rightarrow> state_key set" where
  "expected_keys decls abilities =
     (required_edges decls)\<^sup>* `` (Name ` (DEFAULT_STATE_SET \<union> ability_state_names abilities))"

text \<open>The work list before the loop starts, when every ability is registered.\<close>

definition initial_entries :: "string list \<Rightarrow> (string \<times> 'v params) list
    \<Rightarrow> (state_key \<times> 'v params) list" where
  "initial_entries default_order abilities =
     map (\<lambda>state_name. (Name state_name, [])) default_order @
     concat (map (\<lambda>(ability, params).
        map (\<lambda>state_name. (Name state_name, params))
          (case map_of ABILITY_TO_STATE_MAPPING ability of None \<Rightarrow> [] | Some ns \<Rightarrow> ns))
        abilities)"

text \<open>An entry of the work list can be instantiated: its name is registered and the
  constructor of its class accepts its parameters.\<close>

definition constructible :: "'v class_declarations \<Rightarrow> state_key \<times> 'v params \<Rightarrow> bool" where
  "constructible decls entry =
     (\<exists>c. lookup_class (fst entry) = Some c \<and> accepts decls c (snd entry))"

text \<open>
  A set \<open>S\<close> of keys is well-founded for the required dependencies, with a rank as its
  witness, when every required dependency of a key of \<open>S\<close> is again in \<open>S\<close>, can be
  instantiated without parameters, and has a smaller rank (so no key of \<open>S\<close> requires
  itself, directly or through other states).
\<close>

definition dependencies_well_founded ::
  "'v class_declarations \<Rightarrow> state_key set \<Rightarrow> (state_key \<Rightarrow> nat) \<Rightarrow> bool" where
  "dependencies_well_founded decls S rank =
     (\<forall>k d. k \<in> S \<and> (k, d) \<in> required_edges decls \<longrightarrow>
        d \<in> S \<and> rank d < rank k \<and> constructible decls (d, []))"

text \<open>
  For concrete runs: the default names in the order of the set literal, and the keys and
  a rank for an object whose only ability is \<^verbatim>\<open>dustable\<close>.
\<close>

definition listed_default_order :: "string list" where
  "listed_default_order = [''onTop'', ''inside'', ''nextTo'', ''under'', ''touching'', ''open'']"

definition dustable_keys :: "state_key set" where
  "dustable_keys =
     {Name ''onTop'', Name ''inside'', Name ''nextTo'', Name ''under'', Name ''touching'',
      Name ''open'', Name ''dirty'', Name ''aabb''}"

definition dustable_rank :: "state_key \<Rightarrow> nat" where
  "dustable_rank k = (if k = Name ''dirty'' then 1 else 0)"

section \<open>Theorems\<close>

text \<open>
  C9. For every argument, \<^verbatim>\<open>ContactBodies.set_value\<close> fails (the source raises
  \<^verbatim>\<open>NotImplementedError\<close>, the error the specification calls UnsupportedOperationError),
  and the instance, with its stored value, is the same after the failed call.
\<close>

theorem ContactBodies_set_value_rejected:
  "ContactBodies_set_value new_value self = (Inl NotImplementedError, self)"
  by (simp add: ContactBodies_set_value_def)

text \<open>
  C10. \<^verbatim>\<open>set_value(False)\<close> on a \<^verbatim>\<open>Stained\<close> instance whose particle population was never
  created (\<^verbatim>\<open>self.stain\<close> is still \<^verbatim>\<open>None\<close>) raises an exception; it is not a call that
  returns normally.
\<close>

theorem Stained_set_value_False_raises:
  "s_stain self = None \<Longrightarrow> fst (Stained_set_value False self) = Inl AttributeError"
  by (simp add: Stained_set_value_def)

theorem Stained_set_value_False_raises_witness:
  "s_stain Stained_init = None \<and> fst (Stained_set_value False Stained_init) = Inl AttributeError"
proof -
  have h: "s_stain Stained_init = None" by (simp add: Stained_init_def)
  show ?thesis using h Stained_set_value_False_raises [OF h] by simp
qed

subsection \<open>The cleaning sweep\<close>

lemma inflate_axis_eq: "inflate_axis lo hi = (lo - (hi - lo) / 10, hi + 11 * (hi - lo) / 100)"
  by (simp add: inflate_axis_def Let_def field_simps)

lemma sponge_scene_tools_by_name:
  "get_objects_with_state sponge_scene (Name ''cleaning_tool'') = [wet_sponge]"
  by (simp add: get_objects_with_state_def sponge_scene_def List.map_filter_simps)

lemma sponge_scene_tools_by_class:
  "get_objects_with_state sponge_scene (Class CleaningTool) = []"
  by (simp add: get_objects_with_state_def sponge_scene_def)

lemma empty_scene_tools: "get_objects_with_state empty_scene k = []"
  by (simp add: get_objects_with_state_def empty_scene_def)

lemma count_value_ninety: "get_num ps = 100 \<Longrightarrow> get_num_active ps = 90 \<Longrightarrow> \<not> count_value ps"
  by (simp add: count_value_def CLEAN_THRESHOLD_def)

lemma ninety_of_hundred_counts:
  "get_num ninety_of_hundred = 100" "get_num_active ninety_of_hundred = 90"
  by (simp_all add: ninety_of_hundred_def get_num_def get_num_active_def get_active_particles_def)

lemma sweep_Dirty_returns:
  "\<forall>tool\<in>set tools. \<exists>box. map_of (states tool) (Name ''aabb'') = Some (AABBValue box)
   \<Longrightarrow> \<exists>ps'. sweep Dirty_sweep_tool tools ps = Inr ps'"
proof (induction tools arbitrary: ps)
  case Nil
  then show ?case by simp
next
  case (Cons tool tools)
  then obtain box where "map_of (states tool) (Name ''aabb'') = Some (AABBValue box)" by auto
  then have "\<exists>ps1. Dirty_sweep_tool tool ps = Inr ps1"
    by (simp add: Dirty_sweep_tool_def)
  then obtain ps1 where "Dirty_sweep_tool tool ps = Inr ps1" ..
  with Cons show ?case by simp
qed

lemma Dirty_update_returns:
  "\<forall>tool\<in>set (get_objects_with_state sc (Name ''cleaning_tool'')).
      \<exists>box. map_of (states tool) (Name ''aabb'') = Some (AABBValue box)
   \<Longrightarrow> \<exists>self'. Dirty_update sc self = Inr self'"
  using sweep_Dirty_returns [of "get_objects_with_state sc (Name ''cleaning_tool'')" "d_dust self"]
  by (auto simp: Dirty_update_def)

text \<open>
  C5. Whenever \<^verbatim>\<open>Dirty.update\<close> returns, and whenever \<^verbatim>\<open>Stained.update\<close> returns for a
  state whose value was true, the new value is \<open>active_count > total_count * 0.9\<close> with
  a strict comparison; with 100 particles of which exactly 90 are active after the sweep
  the value is false. (The product is taken in the reals; the double product
  \<^verbatim>\<open>100 * 0.9\<close> is not below 90 either.)
\<close>

theorem update_value_threshold:
  "(Dirty_update sc d = Inr d' \<longrightarrow>
      d_value d' = (real (get_num_active (d_dust d')) > real (get_num (d_dust d')) * 0.9) \<and>
      (get_num (d_dust d') = 100 \<and> get_num_active (d_dust d') = 90 \<longrightarrow> \<not> d_value d')) \<and>
   (s_value s \<and> Stained_update Dirt randomize sc s = Inr s' \<longrightarrow>
      (\<exists>stain. s_stain s' = Some stain \<and>
         s_value s' = (real (get_num_active stain) > real (get_num stain) * 0.9) \<and>
         (get_num stain = 100 \<and> get_num_active stain = 90 \<longrightarrow> \<not> s_value s')))"
proof -
  have dirty: "d_value d' = count_value (d_dust d')" if "Dirty_update sc d = Inr d'"
    using that by (auto simp: Dirty_update_def Let_def split: sum.splits)
  have stained: "\<exists>stain. s_stain s' = Some stain \<and> s_value s' = count_value stain"
    if "s_value s" "Stained_update Dirt randomize sc s = Inr s'"
    using that by (auto simp: Stained_update_def Let_def split: sum.splits)
  show ?thesis
    using dirty stained count_value_ninety
    by (fastforce simp: count_value_def CLEAN_THRESHOLD_def)
qed

theorem update_value_threshold_witness:
  "Dirty_update empty_scene \<lparr>d_value = True, d_dust = ninety_of_hundred\<rparr>
     = Inr \<lparr>d_value = False, d_dust = ninety_of_hundred\<rparr> \<and>
   Stained_update [] id empty_scene
       \<lparr>s_value = True, s_prev_value = True, s_stain = Some ninety_of_hundred\<rparr>
     = Inr \<lparr>s_value = False, s_prev_value = True, s_stain = Some ninety_of_hundred\<rparr>"
proof -
  let ?d = "\<lparr>d_value = True, d_dust = ninety_of_hundred\<rparr>"
  let ?s = "\<lparr>s_value = True, s_prev_value = True, s_stain = Some ninety_of_hundred\<rparr>"
  obtain v where d: "Dirty_update empty_scene ?d = Inr \<lparr>d_value = v, d_dust = ninety_of_hundred\<rparr>"
    by (simp add: Dirty_update_def empty_scene_tools)
  obtain w where s: "Stained_update [] id empty_scene ?s
      = Inr \<lparr>s_value = w, s_prev_value = True, s_stain = Some ninety_of_hundred\<rparr>"
    by (simp add: Stained_update_def empty_scene_tools)
  from update_value_threshold
    [of empty_scene ?d "\<lparr>d_value = v, d_dust = ninety_of_hundred\<rparr>" ?s "[]" id
        "\<lparr>s_value = w, s_prev_value = True, s_stain = Some ninety_of_hundred\<rparr>"] d s
  have "\<not> v" "\<not> w" by (simp_all add: ninety_of_hundred_counts)
  with d s show ?thesis by simp
qed

text \<open>
  A scene indexed by names only has nothing under a class key, so on such a scene the sweep
  of \<^verbatim>\<open>Stained.update\<close> visits no tool and every particle keeps its activity.
  \<^verbatim>\<open>add_object\<close> adds to the index exactly the keys of the object's own state
  dictionary, which the factory builds over names.
\<close>

lemma get_objects_with_state_class_key:
  assumes "\<forall>k \<in> fst ` set (objects_by_state sc). \<exists>n. k = Name n"
  shows "get_objects_with_state sc (Class c) = []"
proof -
  from assms have "Class c \<notin> fst ` set (objects_by_state sc)" by blast
  then have "map_of (objects_by_state sc) (Class c) = None"
    by (simp add: map_of_eq_None_iff)
  then show ?thesis by (simp add: get_objects_with_state_def)
qed

lemma Stained_update_name_keyed:
  assumes "\<forall>k \<in> fst ` set (objects_by_state sc). \<exists>n. k = Name n" and "s_value self"
  shows "Stained_update Dirt randomize sc self =
     (let stain0 = (case s_stain self of None \<Rightarrow> Dirt | Some stain \<Rightarrow> stain);
          stain1 = (if \<not> s_prev_value self then randomize stain0 else stain0)
      in Inr (self\<lparr>s_stain := Some stain1, s_prev_value := True,
                   s_value := count_value stain1\<rparr>))"
  using assms(2)
  by (simp add: Stained_update_def Let_def get_objects_with_state_class_key [OF assms(1)])

lemma index_state_keys:
  "fst ` set (index_state object_name idx state) = insert state (fst ` set idx)"
  by (auto simp: index_state_def Let_def dom_update)

lemma foldl_index_state_keys:
  "fst ` set (foldl (index_state object_name) idx ks) = fst ` set idx \<union> set ks"
  by (induction ks arbitrary: idx) (auto simp: index_state_keys)

lemma add_object_index_keys:
  assumes "add_object object_name obj sc = Inr sc'"
  shows "fst ` set (objects_by_state sc') = fst ` set (objects_by_state sc) \<union> fst ` set (states obj)"
proof -
  from assms have "objects_by_state sc' =
      foldl (index_state object_name) (objects_by_state sc) (map fst (states obj))"
    by (auto simp: add_object_def split: if_splits)
  then show ?thesis by (simp add: foldl_index_state_keys)
qed

text \<open>
  C1 (the source departs from it). The scene holds a cleaning tool whose soaked state is
  true, indexed as \<^verbatim>\<open>add_object\<close> indexes it, and an active stain particle lies strictly
  within the tool's inflated box. \<^verbatim>\<open>Stained.update\<close> asks the scene for the class
  \<^verbatim>\<open>CleaningTool\<close>, finds no tool and leaves the particle active; \<^verbatim>\<open>Dirty.update\<close>,
  which asks for the name \<^verbatim>\<open>"cleaning_tool"\<close>, deactivates the same particle.
\<close>

theorem Stained_update_misses_wet_tool:
  "add_object ''sponge'' wet_sponge empty_scene = Inr sponge_scene \<and>
   get_objects_with_state sponge_scene (Name ''cleaning_tool'') = [wet_sponge] \<and>
   map_of (states wet_sponge) (Name ''soaked'') = Some (BoolValue True) \<and>
   map_of (states wet_sponge) (Name ''aabb'') = Some (AABBValue ((0, 0, 0), (10, 10, 10))) \<and>
   strictly_within (5, 5, 5) (inflate_aabb ((0, 0, 0), (10, 10, 10))) \<and>
   Stained_update Dirt randomize sponge_scene
       \<lparr>s_value = True, s_prev_value = True,
        s_stain = Some [\<lparr>position = (5, 5, 5), active = True\<rparr>]\<rparr>
     = Inr \<lparr>s_value = True, s_prev_value = True,
            s_stain = Some [\<lparr>position = (5, 5, 5), active = True\<rparr>]\<rparr> \<and>
   Dirty_update sponge_scene \<lparr>d_value = True, d_dust = [\<lparr>position = (5, 5, 5), active = True\<rparr>]\<rparr>
     = Inr \<lparr>d_value = False, d_dust = [\<lparr>position = (5, 5, 5), active = False\<rparr>]\<rparr>"
proof -
  have built: "add_object ''sponge'' wet_sponge empty_scene = Inr sponge_scene"
    by (simp add: add_object_def empty_scene_def sponge_scene_def wet_sponge_def index_state_def)
  have keys: "map_of (states wet_sponge) (Name ''soaked'') = Some (BoolValue True)"
    "map_of (states wet_sponge) (Name ''aabb'') = Some (AABBValue ((0, 0, 0), (10, 10, 10)))"
    by (simp_all add: wet_sponge_def)
  have inside: "strictly_within (5, 5, 5) (inflate_aabb ((0, 0, 0), (10, 10, 10)))"
    by (simp add: inflate_axis_eq)
  have stained: "Stained_update Dirt randomize sponge_scene
       \<lparr>s_value = True, s_prev_value = True,
        s_stain = Some [\<lparr>position = (5, 5, 5), active = True\<rparr>]\<rparr>
     = Inr \<lparr>s_value = True, s_prev_value = True,
            s_stain = Some [\<lparr>position = (5, 5, 5), active = True\<rparr>]\<rparr>"
    by (simp add: Stained_update_def sponge_scene_tools_by_class count_value_def get_num_def
        get_num_active_def get_active_particles_def CLEAN_THRESHOLD_def)
  have dirty: "Dirty_update sponge_scene
       \<lparr>d_value = True, d_dust = [\<lparr>position = (5, 5, 5), active = True\<rparr>]\<rparr>
     = Inr \<lparr>d_value = False, d_dust = [\<lparr>position = (5, 5, 5), active = False\<rparr>]\<rparr>"
    by (simp add: Dirty_update_def sponge_scene_tools_by_name Dirty_sweep_tool_def keys
        inflate_axis_eq stash_particle_def count_value_def get_num_def get_num_active_def
        get_active_particles_def CLEAN_THRESHOLD_def)
  from built sponge_scene_tools_by_name keys inside stained dirty show ?thesis by blast
qed

text \<open>
  C6 (the source departs from it). For the box from 0 to 10 on each axis the inflated
  maximum is 11.1, not 11: the maximum is raised by 10% of the extent measured after the
  minimum was lowered, that is by 11% of the original extent. A particle at x = 11.05,
  outside the box inflated by 10% on both sides, is deactivated.
\<close>

theorem inflate_aabb_upper_overshoots:
  "inflate_aabb ((0, 0, 0), (10, 10, 10)) = ((-1, -1, -1), (111 / 10, 111 / 10, 111 / 10)) \<and>
   \<not> strictly_within (1105 / 100, 5, 5) ((-1, -1, -1), (11, 11, 11)) \<and>
   Dirty_update sponge_scene
       \<lparr>d_value = True, d_dust = [\<lparr>position = (1105 / 100, 5, 5), active = True\<rparr>]\<rparr>
     = Inr \<lparr>d_value = False, d_dust = [\<lparr>position = (1105 / 100, 5, 5), active = False\<rparr>]\<rparr>"
  by (simp add: inflate_axis_eq Dirty_update_def sponge_scene_tools_by_name Dirty_sweep_tool_def
        wet_sponge_def stash_particle_def count_value_def get_num_def get_num_active_def
        get_active_particles_def CLEAN_THRESHOLD_def)

subsection \<open>The inside relation\<close>

lemma contains_point_in_footprint: "aabb_contains_point p box \<Longrightarrow> in_footprint p box"
  by (cases p; cases box) auto

text \<open>
  What the source computes on two boxes: case (a) of the specification, or A's centre
  within B's box on all three axes together with A's bottom at or above B's top.
  Whenever the source returns true, the relation of the specification holds.
\<close>

lemma Inside_value_unfolded:
  "Inside_value aabbA aabbB \<longleftrightarrow>
     (aabb_contains_point (get_aabb_center aabbA) aabbB \<and>
      get_aabb_volume aabbA < get_aabb_volume aabbB \<and>
      sum_less_equal (get_aabb_extent aabbA) (get_aabb_extent aabbB) \<ge> 2) \<or>
     (aabb_contains_point (get_aabb_center aabbA) aabbB \<and>
      snd (snd (snd aabbB)) \<le> snd (snd (fst aabbA)))"
  by (auto simp: Inside_value_def Let_def)

lemma Inside_value_specified:
  "Inside_value aabbA aabbB \<Longrightarrow> Inside_as_specified aabbA aabbB"
  using contains_point_in_footprint [of "get_aabb_center aabbA" aabbB]
  by (auto simp: Inside_value_unfolded Inside_as_specified_def)

text \<open>
  The second disjunct of the source is never true of a box with a positive height: the
  centre of such a box is above its bottom, so it cannot be at or below B's top while the
  bottom is at or above it. On such boxes the source decides by case (a) alone.
\<close>

lemma Inside_above_needs_flat_box:
  assumes "aabb_contains_point (get_aabb_center ((ax0, ay0, az0), (ax1, ay1, az1))) aabbB"
    and "snd (snd (snd aabbB)) \<le> az0"
  shows "az1 \<le> az0"
  using assms by (cases aabbB) auto

lemma Inside_value_positive_height:
  assumes "az0 < az1"
  shows "Inside_value ((ax0, ay0, az0), (ax1, ay1, az1)) aabbB \<longleftrightarrow>
     (aabb_contains_point (get_aabb_center ((ax0, ay0, az0), (ax1, ay1, az1))) aabbB \<and>
      get_aabb_volume ((ax0, ay0, az0), (ax1, ay1, az1)) < get_aabb_volume aabbB \<and>
      sum_less_equal (get_aabb_extent ((ax0, ay0, az0), (ax1, ay1, az1))) (get_aabb_extent aabbB) \<ge> 2)"
  using assms Inside_above_needs_flat_box [of ax0 ay0 az0 ax1 ay1 az1 aabbB]
  unfolding Inside_value_unfolded by fastforce

text \<open>
  \<^verbatim>\<open>Inside.get_value\<close> asserts that the class \<^verbatim>\<open>AABB\<close> is a key of both state dictionaries;
  on an object whose keys are all names the assertion fails.
\<close>

lemma Inside_get_value_name_keyed:
  assumes "\<forall>k \<in> fst ` set (states obj). \<exists>n. k = Name n"
  shows "Inside_get_value obj other = Inl AssertionError"
proof -
  from assms have "Class AABB \<notin> fst ` set (states obj)" by blast
  then have "map_of (states obj) (Class AABB) = None"
    by (simp add: map_of_eq_None_iff)
  then show ?thesis by (simp add: Inside_get_value_def)
qed

text \<open>
  C7 (the source departs from it). The unit box A stands on the unit box B: A's centre is
  within B's footprint and A's bottom is at B's top, which is case (b) of the claim. With
  the boxes stored under the class \<^verbatim>\<open>AABB\<close> the source returns false, since line 34 asks
  for the centre within B's box on all three axes; with the boxes stored under the name
  \<^verbatim>\<open>'aabb'\<close>, as the factory stores them, the source raises at its first assertion. The
  same holds for a box A that floats above B.
\<close>

theorem Inside_get_value_misses_stacked_box:
  "Inside_as_specified ((0, 0, 1), (1, 1, 2)) ((0, 0, 0), (1, 1, 1)) \<and>
   Inside_get_value (with_aabb ((0, 0, 1), (1, 1, 2))) (with_aabb ((0, 0, 0), (1, 1, 1))) = Inr False \<and>
   Inside_get_value (with_named_aabb ((0, 0, 1), (1, 1, 2))) (with_named_aabb ((0, 0, 0), (1, 1, 1)))
     = Inl AssertionError \<and>
   Inside_as_specified ((0, 0, 2), (1, 1, 3)) ((0, 0, 0), (1, 1, 1)) \<and>
   Inside_get_value (with_aabb ((0, 0, 2), (1, 1, 3))) (with_aabb ((0, 0, 0), (1, 1, 1))) = Inr False"
  by (simp add: Inside_get_value_def Inside_value_def Inside_as_specified_def with_aabb_def
      with_named_aabb_def get_aabb_volume_def)

subsection \<open>Division of floats\<close>

text \<open>
  The rounded quotient is what IEEE 754 asks of a division: a multiple of \<open>2 ^ e\<close> that
  is within half of \<open>2 ^ e\<close> of the exact quotient, with a significand of at most 53
  binary digits and, unless the result is subnormal (\<open>e = - 1074\<close>), of no fewer.
\<close>

lemma bit_length_0: "bit_length 0 = 0"
  by (simp add: bit_length.simps)

lemma bit_length_pos: "n \<noteq> 0 \<Longrightarrow> bit_length n = Suc (bit_length (n div 2))"
  by (subst bit_length.simps) simp

lemma bit_length_bounds:
  "0 < n \<Longrightarrow> 2 ^ (bit_length n - 1) \<le> n \<and> n < 2 ^ bit_length n"
proof (induction n rule: bit_length.induct)
  case (1 n)
  show ?case
  proof (cases "n div 2 = 0")
    case True
    with 1 have "n = 1" by (simp add: div_eq_0_iff) 
    then show ?thesis by (simp add: bit_length_pos bit_length_0)
  next
    case False
    with 1 have ih: "2 ^ (bit_length (n div 2) - 1) \<le> n div 2" "n div 2 < 2 ^ bit_length (n div 2)"
      by simp_all
    from False have pos: "0 < bit_length (n div 2)" by (simp add: bit_length_pos)
    then obtain k where k: "bit_length (n div 2) = Suc k" by (cases "bit_length (n div 2)") simp_all
    from ih k have "2 ^ k \<le> n div 2" "n div 2 < 2 ^ Suc k" by simp_all
    then have "2 * 2 ^ k \<le> n" "n < 2 * 2 ^ Suc k" by linarith+
    with 1 k show ?thesis by (simp add: bit_length_pos)
  qed
qed

lemma round_half_even_nearest:
  assumes "0 < den"
  shows "\<bar>real (round_half_even num den) - real num / real den\<bar> \<le> 1 / 2"
proof -
  define n r where "n = num div den" and "r = num mod den"
  have num: "real num = real n * real den + real r"
  proof -
    have "num = n * den + r" unfolding n_def r_def by simp
    then have "real num = real (n * den + r)" by (simp only:)
    then show ?thesis by simp
  qed
  have r: "r < den" unfolding r_def using assms by simp
  have q: "real num / real den = real n + real r / real den"
    using assms by (simp add: num field_simps)
  show ?thesis
  proof (cases "2 * r > den \<or> (2 * r = den \<and> odd n)")
    case True
    then have v: "round_half_even num den = n + 1"
      by (simp add: round_half_even_def n_def r_def Let_def)
    from True have "den \<le> 2 * r" by auto
    then have "real den \<le> real (2 * r)" by (simp only: of_nat_le_iff)
    then have "real den \<le> 2 * real r" by simp
    with r assms have "1 / 2 \<le> real r / real den" "real r / real den < 1"
      by (simp_all add: field_simps)
    with v q show ?thesis by simp
  next
    case False
    then have v: "round_half_even num den = n"
      by (simp add: round_half_even_def n_def r_def Let_def)
    from False have "2 * r \<le> den" by auto
    then have "real (2 * r) \<le> real den" by (simp only: of_nat_le_iff)
    then have "2 * real r \<le> real den" by simp
    with assms have "real r / real den \<le> 1 / 2" "0 \<le> real r / real den"
      by (simp_all add: field_simps)
    with v q show ?thesis by simp
  qed
qed

lemma floor_log2_quotient_bounds:
  assumes "0 < m1" and "0 < m2"
  shows "2 powi (floor_log2_quotient m1 m2) \<le> real m1 / real m2"
    and "real m1 / real m2 < 2 powi (floor_log2_quotient m1 m2 + 1)"
proof -
  define b1 b2 where "b1 = bit_length m1" and "b2 = bit_length m2"
  from bit_length_bounds [OF assms(1)] bit_length_bounds [OF assms(2)]
  have n1: "2 ^ (b1 - 1) \<le> m1" "m1 < 2 ^ b1" and n2: "2 ^ (b2 - 1) \<le> m2" "m2 < 2 ^ b2"
    by (simp_all add: b1_def b2_def)
  have p1: "0 < b1" and p2: "0 < b2"
    using assms by (simp_all add: b1_def b2_def bit_length_pos)
  have r1: "(2::real) ^ b1 = 2 * 2 ^ (b1 - 1)"
    using p1 by (cases b1) simp_all
  have r2: "(2::real) ^ b2 = 2 * 2 ^ (b2 - 1)"
    using p2 by (cases b2) simp_all
  have m1r: "2 ^ (b1 - 1) \<le> real m1" "real m1 < 2 ^ b1"
  proof -
    from n1 have "real (2 ^ (b1 - 1)) \<le> real m1" "real m1 < real (2 ^ b1)"
      by (simp_all only: of_nat_le_iff of_nat_less_iff)
    then show "2 ^ (b1 - 1) \<le> real m1" "real m1 < 2 ^ b1" by simp_all
  qed
  have m2r: "2 ^ (b2 - 1) \<le> real m2" "real m2 < 2 ^ b2"
  proof -
    from n2 have "real (2 ^ (b2 - 1)) \<le> real m2" "real m2 < real (2 ^ b2)"
      by (simp_all only: of_nat_le_iff of_nat_less_iff)
    then show "2 ^ (b2 - 1) \<le> real m2" "real m2 < 2 ^ b2" by simp_all
  qed
  have pw: "(2::real) powi (int b1 - int b2) = 2 ^ b1 / 2 ^ b2"
    by (simp add: power_int_diff)
  have m2pos: "0 < real m2" using assms by simp
  show "2 powi (floor_log2_quotient m1 m2) \<le> real m1 / real m2"
  proof (cases "m2 * 2 ^ b1 \<le> m1 * 2 ^ b2")
    case True
    then have "real (m2 * 2 ^ b1) \<le> real (m1 * 2 ^ b2)"
      by (simp only: of_nat_le_iff)
    then have "real m2 * 2 ^ b1 \<le> real m1 * 2 ^ b2"
      by simp
    then have "2 ^ b1 / 2 ^ b2 \<le> real m1 / real m2"
      using m2pos by (simp add: field_simps)
    with True show ?thesis
      by (simp add: floor_log2_quotient_def b1_def b2_def Let_def pw [unfolded b1_def b2_def])
  next
    case False
    have "2 ^ b1 * real m2 \<le> 2 * 2 ^ (b1 - 1) * 2 ^ b2"
      using m2r(2) r1 by (simp add: mult_left_mono)
    also have "\<dots> \<le> 2 * real m1 * 2 ^ b2"
      using m1r(1) by (simp add: mult_right_mono)
    finally have "2 ^ b1 / 2 ^ b2 / 2 \<le> real m1 / real m2"
      using m2pos by (simp add: field_simps)
    moreover have "(2::real) powi (int b1 - int b2 - 1) = 2 ^ b1 / 2 ^ b2 / 2"
      by (simp add: power_int_diff)
    ultimately show ?thesis using False
      by (simp add: floor_log2_quotient_def b1_def b2_def Let_def)
  qed
  show "real m1 / real m2 < 2 powi (floor_log2_quotient m1 m2 + 1)"
  proof (cases "m2 * 2 ^ b1 \<le> m1 * 2 ^ b2")
    case True
    have "real m1 * 2 ^ b2 < 2 ^ b1 * (2 * 2 ^ (b2 - 1))"
      using m1r(2) r2 by (simp add: mult_strict_right_mono)
    also have "\<dots> \<le> 2 ^ b1 * (2 * real m2)"
      using m2r(1) by (simp add: mult_left_mono)
    finally have "real m1 / real m2 < 2 * (2 ^ b1 / 2 ^ b2)"
      using m2pos by (simp add: field_simps)
    moreover have "(2::real) powi (int b1 - int b2 + 1) = 2 * (2 ^ b1 / 2 ^ b2)"
      by (simp add: power_int_diff power_int_add)
    ultimately show ?thesis using True
      by (simp add: floor_log2_quotient_def b1_def b2_def Let_def)
  next
    case False
    then have "m1 * 2 ^ b2 < m2 * 2 ^ b1" by simp
    then have "real (m1 * 2 ^ b2) < real (m2 * 2 ^ b1)"
      by (simp only: of_nat_less_iff)
    then have "real m1 * 2 ^ b2 < real m2 * 2 ^ b1"
      by simp
    then have "real m1 / real m2 < 2 ^ b1 / 2 ^ b2"
      using m2pos by (simp add: field_simps)
    with False show ?thesis
      by (simp add: floor_log2_quotient_def b1_def b2_def Let_def pw [unfolded b1_def b2_def])
  qed
qed


lemma round_quotient_scaled:
  assumes "0 < m2" and "round_quotient s m1 e1 m2 e2 = Finite s' m e"
  shows "\<bar>real m - real m1 / real m2 * 2 powi (e1 - e2 - e)\<bar> \<le> 1 / 2"
proof -
  define d where "d = e1 - e2 - e"
  from assms(2) have m: "m = (if d \<ge> 0 then round_half_even (m1 * 2 ^ nat d) m2
               else round_half_even m1 (m2 * 2 ^ nat (- d)))"
    by (auto simp: round_quotient_def Let_def d_def split: if_splits)
  have "\<bar>real m - real m1 / real m2 * 2 powi d\<bar> \<le> 1 / 2"
  proof (cases "d \<ge> 0")
    case True
    then have "(2::real) powi d = 2 ^ nat d" by (simp add: power_int_def)
    then have eq: "real m1 / real m2 * 2 powi d = real (m1 * 2 ^ nat d) / real m2"
      by simp
    from round_half_even_nearest [OF assms(1), of "m1 * 2 ^ nat d"]
    have "\<bar>real (round_half_even (m1 * 2 ^ nat d) m2) - real (m1 * 2 ^ nat d) / real m2\<bar> \<le> 1 / 2" .
    moreover from m True have "m = round_half_even (m1 * 2 ^ nat d) m2" by simp
    ultimately show ?thesis unfolding eq by (simp only:)
  next
    case False
    then have "(2::real) powi d = inverse (2 ^ nat (- d))"
      by (simp add: power_int_def power_one_over inverse_eq_divide)
    then have eq: "real m1 / real m2 * 2 powi d = real m1 / real (m2 * 2 ^ nat (- d))"
      by (simp add: inverse_eq_divide)
    have "0 < m2 * 2 ^ nat (- d)" using assms(1) by simp
    from round_half_even_nearest [OF this, of m1]
    have "\<bar>real (round_half_even m1 (m2 * 2 ^ nat (- d))) - real m1 / real (m2 * 2 ^ nat (- d))\<bar> \<le> 1 / 2" .
    moreover from m False have "m = round_half_even m1 (m2 * 2 ^ nat (- d))" by simp
    ultimately show ?thesis unfolding eq by (simp only:)
  qed
  then show ?thesis by (simp only: d_def)
qed

lemma round_quotient_nearest:
  assumes "0 < m2" and "round_quotient s m1 e1 m2 e2 = Finite s' m e"
  shows "\<bar>real m * 2 powi e - (real m1 * 2 powi e1) / (real m2 * 2 powi e2)\<bar> \<le> 2 powi e / 2"
proof -
  define x where "x = real m1 / real m2 * 2 powi (e1 - e2 - e)"
  have scaled: "\<bar>real m - x\<bar> \<le> 1 / 2"
    unfolding x_def by (rule round_quotient_scaled [OF assms])
  have pos: "(0::real) < 2 powi e" by simp
  have "(2::real) powi (e1 - e2 - e) * 2 powi e = 2 powi e1 / 2 powi e2"
    by (simp add: power_int_diff)
  then have "x * 2 powi e = real m1 / real m2 * (2 powi e1 / 2 powi e2)"
    by (simp only: x_def mult.assoc)
  then have "(real m1 * 2 powi e1) / (real m2 * 2 powi e2) = x * 2 powi e"
    by simp
  then have "real m * 2 powi e - (real m1 * 2 powi e1) / (real m2 * 2 powi e2)
      = (real m - x) * 2 powi e"
    by (simp add: algebra_simps)
  then have "\<bar>real m * 2 powi e - (real m1 * 2 powi e1) / (real m2 * 2 powi e2)\<bar>
      = \<bar>real m - x\<bar> * 2 powi e"
    by (simp add: abs_mult)
  also have "\<dots> \<le> (1 / 2) * 2 powi e"
    using scaled pos by (intro mult_right_mono) simp_all
  finally show ?thesis by simp
qed

lemma round_quotient_significand:
  assumes "0 < m1" and "0 < m2" and "round_quotient s m1 e1 m2 e2 = Finite s' m e"
  shows "m \<le> 2 ^ 53" and "e \<noteq> - 1074 \<Longrightarrow> 2 ^ 52 \<le> m"
proof -
  define L where "L = floor_log2_quotient m1 m2"
  define x where "x = real m1 / real m2 * 2 powi (e1 - e2 - e)"
  from assms(3) have e: "e = max (- 1074) (L + (e1 - e2) - 52)"
    by (auto simp: round_quotient_def Let_def L_def split: if_splits)
  have scaled: "\<bar>real m - x\<bar> \<le> 1 / 2"
    unfolding x_def by (rule round_quotient_scaled [OF assms(2,3)])
  have q0: "0 < real m1 / real m2" using assms by simp
  have lo: "2 powi L \<le> real m1 / real m2" and hi: "real m1 / real m2 < 2 powi (L + 1)"
    unfolding L_def by (rule floor_log2_quotient_bounds [OF assms(1,2)])+
  show "m \<le> 2 ^ 53"
  proof -
    from e have "e1 - e2 - e \<le> 52 - L" by simp
    then have "(2::real) powi (e1 - e2 - e) \<le> 2 powi (52 - L)"
      by (intro power_int_increasing) simp_all
    with hi q0 have "x < 2 powi (L + 1) * 2 powi (52 - L)"
      unfolding x_def by (intro mult_less_le_imp_less) simp_all
    also have "(2::real) powi (L + 1) * 2 powi (52 - L) = 2 powi 53"
      by (simp add: power_int_add [symmetric])
    finally have "x < 2 ^ 53" by simp
    with scaled have "real m < 2 ^ 53 + 1" by linarith
    then have "real m < real (2 ^ 53 + 1)" by simp
    then have "m < 2 ^ 53 + 1" by (simp only: of_nat_less_iff)
    then show ?thesis by simp
  qed
  show "2 ^ 52 \<le> m" if "e \<noteq> - 1074"
  proof -
    from e that have "e1 - e2 - e = 52 - L" by simp
    then have "x = real m1 / real m2 * 2 powi (52 - L)" by (simp add: x_def)
    moreover have "2 powi L * 2 powi (52 - L) \<le> real m1 / real m2 * 2 powi (52 - L)"
      using lo by (intro mult_right_mono) simp_all
    moreover have "(2::real) powi L * 2 powi (52 - L) = 2 powi 52"
      by (simp add: power_int_add [symmetric])
    ultimately have "2 ^ 52 \<le> x" by simp
    with scaled have "2 ^ 52 - 1 < real m" by linarith
    then have "real (2 ^ 52 - 1) < real m" by simp
    then have "2 ^ 52 - 1 < m" by (simp only: of_nat_less_iff)
    then show ?thesis by simp
  qed
qed

subsection \<open>The simulation step\<close>

lemma substeps_replicate:
  "non_physics_step sim = Inr updates \<Longrightarrow>
   substeps k sim = Inr (concat (replicate k (StepSimulation # updates)))"
  by (induction k) simp_all

text \<open>
  C8 (as the source has it). \<^verbatim>\<open>Simulator.step()\<close> runs the scheduler pass once after
  every physics substep, inside the loop over the substeps, so as many times as there are
  substeps; all passes come before the renderer sync. Outside VR the number of substeps
  is the forced timestep when one is given and not zero, and otherwise
  \<open>max(1, int(render_timestep / physics_timestep))\<close>, the quotient being rounded to a double
  before it is truncated; in VR it is \<open>num_phys_steps\<close> and the calls that end the VR frame
  follow the sync.
\<close>

theorem step_interleaves_updates:
  assumes "non_physics_step sim = Inr updates"
  shows "(\<not> can_access_vr_context sim \<and> physics_timestep_num sim forced_timestep = Inr n \<longrightarrow>
            step sim forced_timestep
              = Inr (concat (replicate (nat n) (StepSimulation # updates)) @ [Sync])) \<and>
         (can_access_vr_context sim \<and> sim_scene sim \<noteq> None \<longrightarrow>
            step sim forced_timestep
              = Inr (concat (replicate (nat (num_phys_steps sim)) (StepSimulation # updates)) @
                     [Sync, SyncVRCompositor, PollVREvents, FixEyeTrackingValue,
                      PerformVRStartPosMove, UpdateVRData]))"
  using substeps_replicate [OF assms] by (simp add: step_def step_vr_def)

lemma table_simulator_updates:
  "non_physics_step table_simulator = Inr [StateUpdate (Name ''dirty'') ''table'']"
  by (simp add: non_physics_step_def table_simulator_def carriers_def dusty_table_def)

lemmas float_eval = bit_length_0 bit_length_pos round_quotient_def floor_log2_quotient_def
  round_half_even_def Let_def

lemma table_simulator_num:
  "physics_timestep_num table_simulator (Some 2) = Inr 2"
  "physics_timestep_num table_simulator None = Inr 4"
  by (simp_all add: physics_timestep_num_def table_simulator_def one_30th_def one_120th_def
      float_eval)

text \<open>
  The rounding of the quotient decides the number of substeps. The double nearest to
  1/15 divided by the double nearest to 1/45 is exactly 3, where the real quotient of the
  same two doubles is below 3; and 1/24 over 1/600 is the double below 25, so 24 substeps
  are run, not 25.
\<close>

lemma physics_timestep_num_15_45:
  "physics_timestep_num (table_simulator\<lparr>render_timestep := one_15th, physics_timestep := one_45th\<rparr>)
     None = Inr 3"
  by (simp add: physics_timestep_num_def one_15th_def one_45th_def float_eval)

lemma physics_timestep_num_24_600:
  "physics_timestep_num (table_simulator\<lparr>render_timestep := one_24th, physics_timestep := one_600th\<rparr>)
     None = Inr 24"
  by (simp add: physics_timestep_num_def one_24th_def one_600th_def float_eval)

lemma table_simulator_no_vr: "\<not> can_access_vr_context table_simulator"
  by (simp add: table_simulator_def)

theorem step_interleaves_updates_witness:
  "step table_simulator None =
     Inr [StepSimulation, StateUpdate (Name ''dirty'') ''table'',
          StepSimulation, StateUpdate (Name ''dirty'') ''table'',
          StepSimulation, StateUpdate (Name ''dirty'') ''table'',
          StepSimulation, StateUpdate (Name ''dirty'') ''table'', Sync]"
proof -
  from step_interleaves_updates [OF table_simulator_updates, of None 4]
    table_simulator_num(2) table_simulator_no_vr
  show ?thesis by (simp add: numeral_eq_Suc)
qed

text \<open>
  The claim as stated fails with two substeps: the pass runs twice, and its first run
  precedes the second substep.
\<close>

theorem step_counterexample:
  "step table_simulator (Some 2) =
     Inr [StepSimulation, StateUpdate (Name ''dirty'') ''table'',
          StepSimulation, StateUpdate (Name ''dirty'') ''table'', Sync] \<and>
   step_as_specified table_simulator (Some 2) =
     Inr [StepSimulation, StepSimulation, StateUpdate (Name ''dirty'') ''table'', Sync]"
  by (simp add: step_def step_as_specified_def table_simulator_num table_simulator_updates
      table_simulator_no_vr numeral_eq_Suc)

subsection \<open>Graphs built by \<open>DiGraph\<close>\<close>

lemma successors_add_node: "successors (add_node G n) u = successors G u"
  by (auto simp: add_node_def successors_def map_add_def split: option.splits)

lemma nodes_add_node: "nodes (add_node G n) = insert n (nodes G)"
  by (auto simp: add_node_def nodes_def)

lemma distinct_add_node: "distinct (map fst G) \<Longrightarrow> distinct (map fst (add_node G n))"
  by (auto simp: add_node_def)

lemma successors_update:
  "successors (AList.update k x G) a = (if a = k then x else successors G a)"
  by (simp add: successors_def update_conv')

lemma nodes_update: "nodes (AList.update k x G) = insert k (nodes G)"
  by (simp add: nodes_def dom_update)

lemma successors_add_edge:
  "successors (add_edge G (u, v)) a =
     (if a = u \<and> v \<notin> set (successors G u) then successors G u @ [v] else successors G a)"
  by (simp add: add_edge_def Let_def successors_update successors_add_node)

lemma nodes_add_edge: "nodes (add_edge G (u, v)) = insert u (insert v (nodes G))"
  by (auto simp: add_edge_def Let_def nodes_update nodes_add_node)

lemma distinct_add_edge: "distinct (map fst G) \<Longrightarrow> distinct (map fst (add_edge G e))"
  by (simp add: add_edge_def Let_def distinct_add_node distinct_update)

lemma edge_add_node: "edge (add_node G n) a b = edge G a b"
  by (simp add: edge_def successors_add_node)

lemma edge_add_edge: "edge (add_edge G (u, v)) a b \<longleftrightarrow> edge G a b \<or> (a = u \<and> b = v)"
  by (auto simp: edge_def successors_add_edge)

lemma edge_source_node: "edge G u v \<Longrightarrow> u \<in> nodes G"
proof -
  assume "edge G u v"
  then obtain vs where "map_of G u = Some vs"
    by (cases "map_of G u") (auto simp: edge_def successors_def)
  then have "u \<in> dom (map_of G)" by blast
  then show ?thesis by (simp add: nodes_def dom_map_of_conv_image_fst)
qed

lemma wf_digraph_add_node: "wf_digraph G \<Longrightarrow> wf_digraph (add_node G n)"
  by (auto simp: wf_digraph_def distinct_add_node successors_add_node edge_add_node nodes_add_node)

lemma wf_digraph_add_edge: "wf_digraph G \<Longrightarrow> wf_digraph (add_edge G e)"
  by (cases e) (auto simp: wf_digraph_def distinct_add_edge successors_add_edge edge_add_edge
      nodes_add_edge)

lemma wf_digraph_Nil: "wf_digraph []"
  by (simp add: wf_digraph_def successors_def edge_def)

lemma foldl_add_node:
  "wf_digraph G \<Longrightarrow> wf_digraph (foldl add_node G ns) \<and>
     nodes (foldl add_node G ns) = nodes G \<union> set ns \<and>
     (\<forall>a b. edge (foldl add_node G ns) a b = edge G a b)"
  by (induction ns arbitrary: G) (auto simp: wf_digraph_add_node nodes_add_node edge_add_node)

lemma foldl_add_edge:
  "wf_digraph G \<Longrightarrow> wf_digraph (foldl add_edge G es) \<and>
     nodes (foldl add_edge G es) = nodes G \<union> fst ` set es \<union> snd ` set es \<and>
     (\<forall>a b. edge (foldl add_edge G es) a b \<longleftrightarrow> edge G a b \<or> (a, b) \<in> set es)"
proof (induction es arbitrary: G)
  case Nil
  then show ?case by simp
next
  case (Cons e es)
  obtain u v where e: "e = (u, v)" by (cases e)
  from Cons.IH [OF wf_digraph_add_edge [OF Cons.prems, of e]] show ?case
    by (auto simp: e nodes_add_edge edge_add_edge)
qed

lemma DiGraph_wf: "wf_digraph (DiGraph d)"
  unfolding DiGraph_def
  using foldl_add_edge foldl_add_node wf_digraph_Nil by blast

lemma DiGraph_edge: "edge (DiGraph d) u v \<longleftrightarrow> (\<exists>vs. (u, vs) \<in> set d \<and> v \<in> set vs)"
proof -
  have "wf_digraph (foldl add_node [] (map fst d))"
    using foldl_add_node wf_digraph_Nil by blast
  moreover have "\<not> edge (foldl add_node [] (map fst d)) u v"
    using foldl_add_node [OF wf_digraph_Nil, of "map fst d"]
    by (simp add: edge_def successors_def)
  ultimately show ?thesis
    unfolding DiGraph_def using foldl_add_edge by fastforce
qed

subsection \<open>In-degrees\<close>

lemma predecessors_filter:
  assumes "distinct (map fst G)"
  shows "predecessors G v = fst ` set (filter (\<lambda>(u, vs). v \<in> set vs) G)"
proof -
  have "edge G u v \<longleftrightarrow> (\<exists>vs. (u, vs) \<in> set G \<and> v \<in> set vs)" for u
  proof (cases "map_of G u")
    case None
    then show ?thesis
      using assms by (auto simp: edge_def successors_def)
  next
    case (Some vs)
    then have "(u, vs') \<in> set G \<longleftrightarrow> vs' = vs" for vs'
      using assms by (auto dest: eq_key_imp_eq_value map_of_SomeD)
    with Some show ?thesis
      by (auto simp: edge_def successors_def)
  qed
  then show ?thesis
    by (force simp: predecessors_def)
qed

lemma card_predecessors:
  assumes "distinct (map fst G)"
  shows "card (predecessors G v) = length (filter (\<lambda>(u, vs). v \<in> set vs) G)"
proof -
  let ?F = "filter (\<lambda>(u, vs). v \<in> set vs) G"
  have "distinct (map fst ?F)"
    using assms by (rule distinct_map_filter)
  then have "card (set (map fst ?F)) = length (map fst ?F)"
    by (rule distinct_card)
  then show ?thesis
    by (simp add: predecessors_filter [OF assms])
qed

lemma finite_predecessors: "finite (predecessors G v)"
proof -
  have "predecessors G v \<subseteq> nodes G"
    by (auto simp: predecessors_def edge_source_node)
  then show ?thesis
    by (rule finite_subset) (simp add: nodes_def)
qed

lemma in_degree_set:
  "(v, d) \<in> set (in_degree G) \<longleftrightarrow>
     v \<in> nodes G \<and> d = int (length (filter (\<lambda>(u, vs). v \<in> set vs) G))"
  by (force simp: in_degree_def nodes_def)

lemma in_degree_keys: "map fst (in_degree G) = map fst G"
  by (simp add: in_degree_def case_prod_unfold comp_def)

lemma kahn_inv_initial:
  assumes "wf_digraph G"
  shows "kahn_inv G (filter (\<lambda>(v, d). d > 0) (in_degree G))
           (map fst (filter (\<lambda>(v, d). d = 0) (in_degree G))) []"
proof -
  let ?im = "filter (\<lambda>(v, d). d > 0) (in_degree G)"
  let ?zs = "map fst (filter (\<lambda>(v, d). d = 0) (in_degree G))"
  from assms have dist: "distinct (map fst G)" by (simp add: wf_digraph_def)
  have dist_deg: "distinct (map fst (in_degree G))"
    using dist by (simp add: in_degree_keys)
  have dist_im: "distinct (map fst ?im)"
    using dist_deg by (rule distinct_map_filter)
  have im: "map_of ?im v = Some d \<longleftrightarrow>
      v \<in> nodes G \<and> d = int (card (predecessors G v)) \<and> d > 0" for v d
    using dist_im by (auto simp: in_degree_set card_predecessors [OF dist])
  have zs: "v \<in> set ?zs \<longleftrightarrow> v \<in> nodes G \<and> card (predecessors G v) = 0" for v
    by (force simp: in_degree_set card_predecessors [OF dist])
  have "distinct ?zs"
    using dist_deg by (rule distinct_map_filter)
  moreover have "set ?zs \<inter> dom (map_of ?im) = {}"
  proof -
    have "\<not> (v \<in> set ?zs \<and> v \<in> dom (map_of ?im))" for v
      unfolding zs using im [of v] by (auto simp: dom_def)
    then show ?thesis by blast
  qed
  moreover have "set ?zs \<union> dom (map_of ?im) = nodes G"
  proof (rule set_eqI)
    fix v
    show "v \<in> set ?zs \<union> dom (map_of ?im) \<longleftrightarrow> v \<in> nodes G"
      using im [of v "int (card (predecessors G v))"] im zs [of v]
      by (auto simp: dom_def)
  qed
  moreover have "\<forall>v \<in> set ?zs. predecessors G v \<subseteq> set []"
  proof
    fix v
    assume "v \<in> set ?zs"
    then have "card (predecessors G v) = 0" by (simp only: zs)
    then show "predecessors G v \<subseteq> set []"
      using finite_predecessors [of G v] by simp
  qed
  moreover have "\<forall>v d. map_of ?im v = Some d \<longrightarrow>
      d = int (card (predecessors G v - set [])) \<and> d > 0"
    using im by simp
  moreover have "topo_sorted G []"
    by (simp add: topo_sorted_def)
  ultimately show ?thesis
    by (simp add: kahn_inv_def)
qed

subsection \<open>One round of the loop\<close>

lemma relax_children_result:
  assumes "distinct cs" and "\<forall>c \<in> set cs. map_of im c \<noteq> None"
  shows "\<exists>im'. relax_children cs (im, zs) = Inr (im', zs @ filter (\<lambda>c. map_of im c = Some 1) cs) \<and>
     (\<forall>v. map_of im' v =
        (if v \<in> set cs
         then (case map_of im v of None \<Rightarrow> None | Some d \<Rightarrow> if d = 1 then None else Some (d - 1))
         else map_of im v))"
  using assms
proof (induction cs arbitrary: im zs)
  case Nil
  then show ?case by simp
next
  case (Cons c cs)
  from Cons.prems obtain d where d: "map_of im c = Some d" by auto
  from Cons.prems have c: "c \<notin> set cs" and dist: "distinct cs" by auto
  define im1 where "im1 = (if d - 1 = 0 then AList.delete c (AList.update c (d - 1) im)
    else AList.update c (d - 1) im)"
  define zs1 where "zs1 = (if d - 1 = 0 then zs @ [c] else zs)"
  have step: "relax_children (c # cs) (im, zs) = relax_children cs (im1, zs1)"
    using d by (simp add: Let_def im1_def zs1_def)
  have m1: "map_of im1 = (map_of im)(c := (if d = 1 then None else Some (d - 1)))"
    by (auto simp: im1_def delete_conv' update_conv')
  have pre: "\<forall>c' \<in> set cs. map_of im1 c' \<noteq> None"
    using Cons.prems c by (auto simp: m1)
  from Cons.IH [OF dist pre, of zs1] obtain im' where
    run: "relax_children cs (im1, zs1) = Inr (im', zs1 @ filter (\<lambda>c'. map_of im1 c' = Some 1) cs)"
    and m': "\<forall>v. map_of im' v =
      (if v \<in> set cs
       then (case map_of im1 v of None \<Rightarrow> None | Some d \<Rightarrow> if d = 1 then None else Some (d - 1))
       else map_of im1 v)"
    by blast
  have same: "filter (\<lambda>c'. map_of im1 c' = Some 1) cs = filter (\<lambda>c'. map_of im c' = Some 1) cs"
    using c by (intro filter_cong) (auto simp: m1)
  have zs: "zs1 @ filter (\<lambda>c'. map_of im1 c' = Some 1) cs
      = zs @ filter (\<lambda>c'. map_of im c' = Some 1) (c # cs)"
    using d by (simp add: same zs1_def)
  have "relax_children (c # cs) (im, zs)
      = Inr (im', zs @ filter (\<lambda>c'. map_of im c' = Some 1) (c # cs))"
    by (simp only: step run zs)
  moreover have "\<forall>v. map_of im' v =
      (if v \<in> set (c # cs)
       then (case map_of im v of None \<Rightarrow> None | Some d \<Rightarrow> if d = 1 then None else Some (d - 1))
       else map_of im v)"
    using m' c d by (auto simp: m1)
  ultimately show ?case by blast
qed

lemma topo_sorted_snoc:
  assumes "topo_sorted G out" and "predecessors G n \<subseteq> set out"
  shows "topo_sorted G (out @ [n])"
  unfolding topo_sorted_def
proof (intro allI impI)
  fix xs v ys
  assume eq: "out @ [n] = xs @ v # ys"
  show "predecessors G v \<subseteq> set xs"
  proof (cases ys rule: rev_cases)
    case Nil
    with eq have "xs = out" "v = n" by auto
    with assms(2) show ?thesis by simp
  next
    case (snoc ys' y)
    with eq have "out = xs @ v # ys'" by auto
    with assms(1) show ?thesis by (auto simp: topo_sorted_def)
  qed
qed

lemma topo_sorted_member:
  assumes "topo_sorted G out" and "v \<in> set out"
  shows "predecessors G v \<subseteq> set out"
proof -
  from assms(2) obtain xs ys where "out = xs @ v # ys"
    by (auto dest: split_list)
  with assms(1) show ?thesis by (fastforce simp: topo_sorted_def)
qed

lemma kahn_inv_step:
  assumes wf: "wf_digraph G" and inv: "kahn_inv G im zs out" and ne: "zs \<noteq> []"
  shows "\<exists>children im' zs'. map_of G (last zs) = Some children \<and>
     relax_children children (im, butlast zs) = Inr (im', zs') \<and>
     kahn_inv G im' zs' (out @ [last zs])"
proof -
  define n where "n = last zs"
  define zs0 where "zs0 = butlast zs"
  have zs: "zs = zs0 @ [n]" using ne by (simp add: n_def zs0_def)
  from inv have
    d_zs: "distinct zs" and d_out: "distinct out"
    and oz: "set out \<inter> set zs = {}" and om: "set out \<inter> dom (map_of im) = {}"
    and zm: "set zs \<inter> dom (map_of im) = {}"
    and un: "set out \<union> set zs \<union> dom (map_of im) = nodes G"
    and zp: "\<forall>v \<in> set zs. predecessors G v \<subseteq> set out"
    and md: "\<forall>v d. map_of im v = Some d \<longrightarrow> d = int (card (predecessors G v - set out)) \<and> d > 0"
    and ts: "topo_sorted G out"
    by (simp_all add: kahn_inv_def)
  have n_zs: "n \<in> set zs" by (simp add: zs)
  have n_out: "n \<notin> set out" using oz n_zs by blast
  have n_im: "map_of im n = None" using zm n_zs by blast
  have n_zs0: "n \<notin> set zs0" using d_zs by (simp add: zs)
  have "n \<in> nodes G" using un n_zs by blast
  then obtain children where ch: "map_of G n = Some children"
    by (auto simp: nodes_def dest: weak_map_of_SomeI)
  have succ: "successors G n = children" by (simp add: successors_def ch)
  have d_ch: "distinct children"
    using wf succ by (auto simp: wf_digraph_def)
  have pred_iff: "n \<in> predecessors G v \<longleftrightarrow> v \<in> set children" for v
    by (simp add: predecessors_def edge_def succ)
  have ch_im: "map_of im c \<noteq> None" if "c \<in> set children" for c
  proof -
    from that have np: "n \<in> predecessors G c" by (simp add: pred_iff)
    then have "edge G n c" by (simp add: predecessors_def)
    with wf have "c \<in> nodes G" by (auto simp: wf_digraph_def)
    moreover have "c \<notin> set out"
      using topo_sorted_member [OF ts] np n_out by blast
    moreover have "c \<notin> set zs"
      using zp np n_out by blast
    ultimately show ?thesis using un by blast
  qed
  from relax_children_result [OF d_ch, of im zs0] ch_im obtain im' where
    run: "relax_children children (im, zs0)
        = Inr (im', zs0 @ filter (\<lambda>c. map_of im c = Some 1) children)"
    and m': "\<And>v. map_of im' v =
        (if v \<in> set children
         then (case map_of im v of None \<Rightarrow> None | Some d \<Rightarrow> if d = 1 then None else Some (d - 1))
         else map_of im v)"
    by blast
  define F where "F = filter (\<lambda>c. map_of im c = Some 1) children"
  have F_set: "set F = {c \<in> set children. map_of im c = Some 1}" by (simp add: F_def)
  have dom': "dom (map_of im') = dom (map_of im) - set F"
  proof (rule set_eqI)
    fix v
    show "v \<in> dom (map_of im') \<longleftrightarrow> v \<in> dom (map_of im) - set F"
      by (cases "map_of im v") (auto simp: m' F_set dom_def)
  qed
  have F_dom: "set F \<subseteq> dom (map_of im)" by (auto simp: F_set)
  have card_n: "card (predecessors G v - set (out @ [n])) = card (predecessors G v - set out) - 1"
    if "v \<in> set children" for v
  proof -
    from that have "n \<in> predecessors G v - set out"
      using n_out by (simp add: pred_iff)
    moreover have "predecessors G v - set (out @ [n]) = (predecessors G v - set out) - {n}"
      by auto
    ultimately show ?thesis by simp
  qed
  have same_n: "predecessors G v - set (out @ [n]) = predecessors G v - set out"
    if "v \<notin> set children" for v
    using that by (auto simp: pred_iff)
  have "distinct (zs0 @ F)"
    using d_zs d_ch zm F_dom by (auto simp: zs F_def)
  moreover have "distinct (out @ [n])"
    using d_out n_out by simp
  moreover have "set (out @ [n]) \<inter> set (zs0 @ F) = {}"
    using oz om n_zs0 n_im F_dom by (auto simp: zs)
  moreover have "set (out @ [n]) \<inter> dom (map_of im') = {}"
    using om n_im by (auto simp: dom')
  moreover have "set (zs0 @ F) \<inter> dom (map_of im') = {}"
    using zm by (auto simp: dom' zs)
  moreover have "set (out @ [n]) \<union> set (zs0 @ F) \<union> dom (map_of im') = nodes G"
    using un F_dom by (auto simp: dom' zs)
  moreover have "\<forall>v \<in> set (zs0 @ F). predecessors G v \<subseteq> set (out @ [n])"
  proof
    fix v
    assume "v \<in> set (zs0 @ F)"
    then consider "v \<in> set zs0" | "v \<in> set F" by auto
    then show "predecessors G v \<subseteq> set (out @ [n])"
    proof cases
      case 1
      then show ?thesis using zp by (auto simp: zs)
    next
      case 2
      then have v: "v \<in> set children" and one: "map_of im v = Some 1"
        by (auto simp: F_set)
      from md one have "card (predecessors G v - set out) = 1" by fastforce
      with card_n [OF v] have "card (predecessors G v - set (out @ [n])) = 0" by simp
      moreover have "finite (predecessors G v - set (out @ [n]))"
        using finite_predecessors [of G v] by simp
      ultimately show ?thesis by auto
    qed
  qed
  moreover have "\<forall>v d. map_of im' v = Some d \<longrightarrow>
      d = int (card (predecessors G v - set (out @ [n]))) \<and> d > 0"
  proof (intro allI impI)
    fix v d
    assume v: "map_of im' v = Some d"
    show "d = int (card (predecessors G v - set (out @ [n]))) \<and> d > 0"
    proof (cases "v \<in> set children")
      case True
      with v obtain d0 where d0: "map_of im v = Some d0" "d0 \<noteq> 1" "d = d0 - 1"
        by (auto simp: m' split: option.splits if_splits)
      from md d0(1) have "d0 = int (card (predecessors G v - set out))" "d0 > 0" by auto
      with d0 card_n [OF True] show ?thesis by auto
    next
      case False
      with v have "map_of im v = Some d" by (simp add: m')
      with md same_n [OF False] show ?thesis by auto
    qed
  qed
  moreover have "topo_sorted G (out @ [n])"
    using ts zp n_zs by (intro topo_sorted_snoc) auto
  ultimately have "kahn_inv G im' (zs0 @ F) (out @ [n])"
    unfolding kahn_inv_def by blast
  with ch run show ?thesis
    unfolding n_def [symmetric] zs0_def [symmetric] F_def [symmetric] by blast
qed

lemma topo_loop_unfold:
  "topo_loop G im zs out =
     (if zs = [] then (if im \<noteq> [] then Inl NetworkXUnfeasible else Inr out)
      else case map_of G (last zs) of
        None \<Rightarrow> Inl RuntimeError
      | Some children \<Rightarrow>
          (case relax_children children (im, butlast zs) of
             Inl e \<Rightarrow> Inl e
           | Inr s \<Rightarrow> topo_loop G (fst s) (snd s) (out @ [last zs])))"
  by (rule topo_loop.simps)

lemma kahn_inv_stuck_cyclic:
  assumes inv: "kahn_inv G im [] out" and ne: "im \<noteq> []"
  shows "\<not> acyclic {(a, b). edge G a b}"
proof
  assume acyc: "acyclic {(a, b). edge G a b}"
  define D where "D = dom (map_of im)"
  define R where "R = {(u, v). edge G u v \<and> u \<in> D \<and> v \<in> D}"
  from inv have un: "set out \<union> D = nodes G"
    and md: "\<And>v d. map_of im v = Some d \<Longrightarrow> d = int (card (predecessors G v - set out)) \<and> d > 0"
    by (simp_all add: kahn_inv_def D_def)
  have "finite D" by (simp add: D_def finite_dom_map_of)
  from ne obtain k d0 rest where "im = (k, d0) # rest"
    by (cases im) auto
  then have "map_of im k = Some d0" by simp
  then have "k \<in> D" unfolding D_def by (rule domI)
  have pred_in: "\<exists>u \<in> D. edge G u v" if "v \<in> D" for v
  proof -
    from that obtain d where "map_of im v = Some d"
      unfolding D_def by (auto simp: dom_def)
    from md [OF this] have "card (predecessors G v - set out) > 0" by simp
    then have "predecessors G v - set out \<noteq> {}"
      by (intro notI) simp
    then obtain u where "u \<in> predecessors G v - set out" by blast
    then have u: "edge G u v" "u \<notin> set out"
      by (simp_all add: predecessors_def)
    from u(1) have "u \<in> nodes G" by (rule edge_source_node)
    with un u(2) have "u \<in> D" by blast
    with u(1) show ?thesis by blast
  qed
  have "R \<subseteq> {(a, b). edge G a b}" unfolding R_def by blast
  with acyc have "acyclic R" by (rule acyclic_subset)
  moreover have "R \<subseteq> D \<times> D" unfolding R_def by blast
  then have "finite R"
    using \<open>finite D\<close> by (meson finite_SigmaI finite_subset)
  ultimately have "wf R" by (intro finite_acyclic_wf)
  from wfE_min [OF \<open>wf R\<close> \<open>k \<in> D\<close>]
  obtain z where z: "z \<in> D" "\<And>y. (y, z) \<in> R \<Longrightarrow> y \<notin> D"
    by blast
  from pred_in [OF z(1)] obtain u where u: "u \<in> D" "edge G u z" by blast
  with z(1) have "(u, z) \<in> R" by (simp add: R_def)
  from z(2) [OF this] u(1) show False by simp
qed

lemma topo_loop_correct:
  assumes "wf_digraph G" and "kahn_inv G im zs out"
  shows "(topo_loop G im zs out = Inl NetworkXUnfeasible \<and> \<not> acyclic {(a, b). edge G a b}) \<or>
     (\<exists>res. topo_loop G im zs out = Inr res \<and> distinct res \<and> set res = nodes G \<and>
        topo_sorted G res)"
  using assms
proof (induction G im zs out rule: topo_loop.induct)
  case (1 G im zs out)
  show ?case
  proof (cases "zs = []")
    case True
    show ?thesis
    proof (cases "im = []")
      case True
      with \<open>zs = []\<close> "1.prems"(2) show ?thesis
        by (subst (1 2) topo_loop_unfold) (simp add: kahn_inv_def)
    next
      case False
      with \<open>zs = []\<close> "1.prems"(2) have "\<not> acyclic {(a, b). edge G a b}"
        by (intro kahn_inv_stuck_cyclic [of G im out]) simp_all
      with False \<open>zs = []\<close> show ?thesis
        by (subst topo_loop_unfold) simp
    qed
  next
    case False
    from kahn_inv_step [OF "1.prems" False] obtain children im' zs' where
      ch: "map_of G (last zs) = Some children"
      and run: "relax_children children (im, butlast zs) = Inr (im', zs')"
      and inv': "kahn_inv G im' zs' (out @ [last zs])"
      by blast
    have eq: "topo_loop G im zs out = topo_loop G im' zs' (out @ [last zs])"
      using False ch run by (subst topo_loop_unfold) simp
    from "1.IH" [OF False ch run] "1.prems"(1) inv' show ?thesis
      by (simp add: eq)
  qed
qed

lemma topological_sort_correct:
  assumes "wf_digraph G"
  shows "(topological_sort G = Inl NetworkXUnfeasible \<and> \<not> acyclic {(a, b). edge G a b}) \<or>
     (\<exists>res. topological_sort G = Inr res \<and> distinct res \<and> set res = nodes G \<and>
        topo_sorted G res)"
  unfolding topological_sort_def Let_def
  by (rule topo_loop_correct [OF assms kahn_inv_initial [OF assms]])

subsection \<open>Order of appearance\<close>

lemma appears_before_rev: "appears_before x y l \<Longrightarrow> appears_before y x (rev l)"
  unfolding appears_before_def
proof -
  assume "\<exists>xs ys zs. l = xs @ x # ys @ y # zs"
  then obtain xs ys zs where "l = xs @ x # ys @ y # zs" by blast
  then have "rev l = rev zs @ y # rev ys @ x # rev xs" by simp
  then show "\<exists>xs ys zs. rev l = xs @ y # ys @ x # zs" by blast
qed

lemma appears_before_trans:
  assumes "distinct l" and "appears_before x y l" and "appears_before y z l"
  shows "appears_before x z l"
proof -
  from assms(2) obtain a b c where l1: "l = a @ x # b @ y # c"
    by (auto simp: appears_before_def)
  from assms(3) obtain a' b' c' where l2: "l = a' @ y # b' @ z # c'"
    by (auto simp: appears_before_def)
  from l1 have l1': "l = (a @ x # b) @ y # c" by simp
  from assms(1) l1' have "y \<notin> set (a @ x # b)" "y \<notin> set c" by auto
  with l1' l2 have "a @ x # b = a'" "c = b' @ z # c'"
    by (metis append_Cons_eq_iff)+
  with l1 have "l = a @ x # (b @ y # b') @ z # c'" by simp
  then show ?thesis unfolding appears_before_def by blast
qed

lemma appears_before_irrefl:
  assumes "distinct l"
  shows "\<not> appears_before x x l"
  using assms by (auto simp: appears_before_def)

lemma topo_sorted_edge:
  assumes "topo_sorted G res" and "v \<in> set res" and "edge G u v"
  shows "appears_before u v res"
proof -
  from assms(2) obtain xs ys where res: "res = xs @ v # ys"
    by (auto dest: split_list)
  with assms(1) have "predecessors G v \<subseteq> set xs"
    by (auto simp: topo_sorted_def)
  with assms(3) have "u \<in> set xs" by (auto simp: predecessors_def)
  then obtain xs1 xs2 where "xs = xs1 @ u # xs2"
    by (auto dest: split_list)
  with res have "res = xs1 @ u # xs2 @ v # ys" by simp
  then show ?thesis unfolding appears_before_def by blast
qed

lemma edge_target_node: "wf_digraph G \<Longrightarrow> edge G u v \<Longrightarrow> v \<in> nodes G"
  unfolding wf_digraph_def by blast

lemma topo_sorted_path:
  assumes wf: "wf_digraph G" and "distinct res" and "set res = nodes G" and "topo_sorted G res"
    and "(u, v) \<in> {(a, b). edge G a b}\<^sup>+"
  shows "appears_before u v res"
  using assms(5)
proof (induction rule: trancl_induct)
  case (base y)
  from base have e: "edge G u y" by simp
  from edge_target_node [OF wf e] assms(3) have "y \<in> set res" by simp
  from topo_sorted_edge [OF assms(4) this e] show ?case .
next
  case (step y z)
  from step.hyps(2) have e: "edge G y z" by simp
  from edge_target_node [OF wf e] assms(3) have "z \<in> set res" by simp
  from topo_sorted_edge [OF assms(4) this e] have "appears_before y z res" .
  from appears_before_trans [OF assms(2) step.IH this] show ?case .
qed

lemma topological_sort_cyclic:
  assumes "wf_digraph G" and "(k, k) \<in> {(a, b). edge G a b}\<^sup>+"
  shows "topological_sort G = Inl NetworkXUnfeasible"
proof -
  have no_order: False
    if "distinct res" "set res = nodes G" "topo_sorted G res" for res
  proof -
    from topo_sorted_path [OF assms(1) that assms(2)] have "appears_before k k res" .
    with appears_before_irrefl [OF that(1)] show False by simp
  qed
  from topological_sort_correct [OF assms(1)] show ?thesis
  proof (elim disjE conjE exE)
    assume "topological_sort G = Inl NetworkXUnfeasible"
    then show ?thesis .
  next
    fix res
    assume "distinct res" "set res = nodes G" "topo_sorted G res"
    then have False by (rule no_order)
    then show ?thesis ..
  qed
qed

subsection \<open>The dependency graph of the registry\<close>

lemma dependencies_dict_registered:
  assumes "set all_order \<subseteq> get_all_state_names"
  shows "dependencies_dict decls all_order
     = Inr (map (\<lambda>state_name. (Name state_name, state_dependencies decls state_name)) all_order)"
  using assms
proof (induction all_order)
  case Nil
  then show ?case by simp
next
  case (Cons state_name all_order)
  then have "state_name \<in> fst ` set STATE_NAME_TO_CLASS_MAPPING"
    by (simp add: get_all_state_names_def)
  then obtain c where "map_of STATE_NAME_TO_CLASS_MAPPING state_name = Some c"
    by (auto dest: weak_map_of_SomeI)
  with Cons show ?case by (simp add: state_dependencies_def)
qed

lemma dependency_graph_edges:
  assumes "set all_order = get_all_state_names"
  shows "\<exists>G. get_state_dependency_graph decls all_order = Inr G \<and> wf_digraph G \<and>
     {(a, b). edge G a b} = dependency_edges decls"
proof -
  let ?d = "map (\<lambda>state_name. (Name state_name, state_dependencies decls state_name)) all_order"
  have "get_state_dependency_graph decls all_order = Inr (DiGraph ?d)"
    using assms by (simp add: get_state_dependency_graph_def dependencies_dict_registered)
  moreover have "{(a, b). edge (DiGraph ?d) a b} = dependency_edges decls"
    using assms by (auto simp: DiGraph_edge dependency_edges_def)
  ultimately show ?thesis using DiGraph_wf by blast
qed

text \<open>
  C3. In the sequence returned by \<^verbatim>\<open>get_states_by_dependency_order\<close>, every required or
  optional dependency of a registered state appears strictly before that state, and no
  key appears twice. This holds for whatever the classes outside the sources declare and
  for every order in which Python enumerates the set of state names.
\<close>

theorem dependency_order_dependencies_first:
  assumes "set all_order = get_all_state_names"
    and "get_states_by_dependency_order decls all_order = Inr order"
    and "map_of STATE_NAME_TO_CLASS_MAPPING state_name = Some c"
    and "dependency \<in> set (get_dependencies decls c) \<union> set (get_optional_dependencies decls c)"
  shows "appears_before dependency (Name state_name) order \<and> distinct order"
proof -
  from dependency_graph_edges [OF assms(1)] obtain G where
    G: "get_state_dependency_graph decls all_order = Inr G" and wf: "wf_digraph G"
    and edges: "{(a, b). edge G a b} = dependency_edges decls"
    by blast
  from assms(2) G obtain res where res: "topological_sort G = Inr res" and order: "order = rev res"
    by (auto simp: get_states_by_dependency_order_def split: sum.splits)
  then have "topological_sort G \<noteq> Inl NetworkXUnfeasible" by simp
  with topological_sort_correct [OF wf] have
    "\<exists>r. topological_sort G = Inr r \<and> distinct r \<and> set r = nodes G \<and> topo_sorted G r"
    by (elim disjE conjE) simp_all
  then obtain r where
    "topological_sort G = Inr r" "distinct r" "set r = nodes G" "topo_sorted G r"
    by (elim exE conjE)
  with res have sorted: "distinct res" "set res = nodes G" "topo_sorted G res"
    by simp_all
  from assms(3) have "state_name \<in> get_all_state_names"
    by (auto simp: get_all_state_names_def dest: map_of_SomeD intro: rev_image_eqI)
  with assms(3,4) have "(Name state_name, dependency) \<in> dependency_edges decls"
    by (auto simp: dependency_edges_def state_dependencies_def)
  with edges have e: "edge G (Name state_name) dependency" by blast
  from edge_target_node [OF wf e] sorted(2) have "dependency \<in> set res" by simp
  from topo_sorted_edge [OF sorted(3) this e] sorted(1) show ?thesis
    by (simp add: order appears_before_rev)
qed

text \<open>
  C4. If the registered dependency relation contains a cycle, building the dependency
  order fails: \<^verbatim>\<open>topological_sort\<close> raises \<^verbatim>\<open>NetworkXUnfeasible\<close> (the error the
  specification calls CyclicDependencyError) and no list, partial or not, is returned.
\<close>

theorem cyclic_dependencies_rejected:
  assumes "set all_order = get_all_state_names"
    and "(k, k) \<in> (dependency_edges decls)\<^sup>+"
  shows "get_states_by_dependency_order decls all_order = Inl NetworkXUnfeasible"
proof -
  from dependency_graph_edges [OF assms(1)] obtain G where
    G: "get_state_dependency_graph decls all_order = Inr G" and wf: "wf_digraph G"
    and edges: "{(a, b). edge G a b} = dependency_edges decls"
    by blast
  from assms(2) edges have "(k, k) \<in> {(a, b). edge G a b}\<^sup>+" by simp
  from topological_sort_cyclic [OF wf this] G show ?thesis
    by (simp add: get_states_by_dependency_order_def)
qed

lemma dependency_order_exists:
  assumes "set all_order = get_all_state_names" and "acyclic (dependency_edges decls)"
  shows "\<exists>order. get_states_by_dependency_order decls all_order = Inr order"
proof -
  from dependency_graph_edges [OF assms(1)] obtain G where
    G: "get_state_dependency_graph decls all_order = Inr G" and wf: "wf_digraph G"
    and edges: "{(a, b). edge G a b} = dependency_edges decls"
    by blast
  from assms(2) have "acyclic {(a, b). edge G a b}" unfolding edges .
  with topological_sort_correct [OF wf]
  have "\<exists>res. topological_sort G = Inr res"
    by (elim disjE conjE exE) (simp, blast)
  then obtain res where "topological_sort G = Inr res" ..
  with G show ?thesis by (simp add: get_states_by_dependency_order_def)
qed

lemma acyclic_no_two_steps:
  assumes "\<And>a b c. (a, b) \<in> R \<Longrightarrow> (b, c) \<notin> R"
  shows "acyclic R"
proof (rule acyclicI, intro allI notI)
  fix k
  assume "(k, k) \<in> R\<^sup>+"
  from tranclD [OF this] obtain y where y: "(k, y) \<in> R" "(y, k) \<in> R\<^sup>*"
    by blast
  from y(2) show False
  proof (cases rule: converse_rtranclE)
    case base
    with y(1) assms [of k k k] show False by simp
  next
    case (step z)
    with y(1) assms [of k y z] show False by simp
  qed
qed

lemma plain_dependency_targets:
  assumes "d \<in> set (state_dependencies plain_declarations n)"
  shows "d \<in> {Name ''aabb'', Name ''cleaning_tool'', Class AABB, Class Soaked, Class CleaningTool}"
  using assms
  by (auto simp: state_dependencies_def get_dependencies_def get_optional_dependencies_def
      plain_declarations_def split: option.splits if_splits)

lemma plain_targets_no_dependencies:
  "state_dependencies plain_declarations ''aabb'' = []"
  "state_dependencies plain_declarations ''cleaning_tool'' = []"
  by (simp_all add: state_dependencies_def get_dependencies_def get_optional_dependencies_def
      plain_declarations_def STATE_NAME_TO_CLASS_MAPPING_def)

lemma plain_acyclic: "acyclic (dependency_edges plain_declarations)"
proof (rule acyclic_no_two_steps)
  fix a b c
  assume "(a, b) \<in> dependency_edges plain_declarations"
  then obtain n where "b \<in> set (state_dependencies plain_declarations n)"
    by (auto simp: dependency_edges_def)
  from plain_dependency_targets [OF this] plain_targets_no_dependencies
  show "(b, c) \<notin> dependency_edges plain_declarations"
    by (auto simp: dependency_edges_def)
qed

lemma all_names_enumerated:
  "set (map fst STATE_NAME_TO_CLASS_MAPPING) = get_all_state_names"
  by (simp add: get_all_state_names_def)

theorem dependency_order_dependencies_first_witness:
  "\<exists>order. get_states_by_dependency_order plain_declarations
       (map fst STATE_NAME_TO_CLASS_MAPPING) = Inr order \<and>
     appears_before (Name ''aabb'') (Name ''dirty'') order \<and>
     appears_before (Class AABB) (Name ''stained'') order \<and> distinct order"
proof -
  from dependency_order_exists [OF all_names_enumerated plain_acyclic]
  obtain order where order: "get_states_by_dependency_order plain_declarations
      (map fst STATE_NAME_TO_CLASS_MAPPING) = Inr order"
    by blast
  have dirty: "map_of STATE_NAME_TO_CLASS_MAPPING ''dirty'' = Some Dirty"
    and stained: "map_of STATE_NAME_TO_CLASS_MAPPING ''stained'' = Some Stained"
    by (simp_all add: STATE_NAME_TO_CLASS_MAPPING_def)
  have "Name ''aabb'' \<in> set (get_dependencies plain_declarations Dirty) \<union>
      set (get_optional_dependencies plain_declarations Dirty)"
    by (simp add: get_dependencies_def)
  from dependency_order_dependencies_first [OF all_names_enumerated order dirty this]
  have 1: "appears_before (Name ''aabb'') (Name ''dirty'') order \<and> distinct order" .
  have "Class AABB \<in> set (get_dependencies plain_declarations Stained) \<union>
      set (get_optional_dependencies plain_declarations Stained)"
    by (simp add: get_dependencies_def)
  from dependency_order_dependencies_first [OF all_names_enumerated order stained this]
  have 2: "appears_before (Class AABB) (Name ''stained'') order \<and> distinct order" .
  from order 1 2 show ?thesis by blast
qed

theorem cyclic_dependencies_rejected_witness:
  "get_states_by_dependency_order cyclic_declarations (map fst STATE_NAME_TO_CLASS_MAPPING)
     = Inl NetworkXUnfeasible"
proof -
  have names: "''pose'' \<in> get_all_state_names" "''aabb'' \<in> get_all_state_names"
    by (simp_all add: get_all_state_names_def STATE_NAME_TO_CLASS_MAPPING_def)
  have deps: "state_dependencies cyclic_declarations ''pose'' = [Name ''aabb'']"
    "state_dependencies cyclic_declarations ''aabb'' = [Name ''pose'']"
    by (simp_all add: state_dependencies_def get_dependencies_def get_optional_dependencies_def
        cyclic_declarations_def STATE_NAME_TO_CLASS_MAPPING_def)
  have "(Name ''pose'', Name ''aabb'') \<in> dependency_edges cyclic_declarations"
    and "(Name ''aabb'', Name ''pose'') \<in> dependency_edges cyclic_declarations"
    using names deps by (auto simp: dependency_edges_def)
  then have "(Name ''pose'', Name ''pose'') \<in> (dependency_edges cyclic_declarations)\<^sup>+"
    by (rule trancl_into_trancl [OF r_into_trancl])
  from cyclic_dependencies_rejected [OF all_names_enumerated this] show ?thesis .
qed

subsection \<open>Preparing the states of an object\<close>

lemma foldl_add_dependency:
  "foldl add_dependency l deps = l @ map (\<lambda>d. (d, [])) deps"
  by (induction deps arbitrary: l) (simp_all add: add_dependency_def key_eq_entry_def)

lemma required_edges_Image:
  "lookup_class k = Some c \<Longrightarrow> required_edges decls `` {k} = set (get_dependencies decls c)"
  by (auto simp: required_edges_def)

lemma rtrancl_Image_insert:
  "R\<^sup>* `` insert k A = insert k (R\<^sup>* `` (R `` {k})) \<union> R\<^sup>* `` A"
proof -
  have "R\<^sup>* `` {k} = insert k (R\<^sup>* `` (R `` {k}))"
  proof (rule set_eqI)
    fix x
    show "x \<in> R\<^sup>* `` {k} \<longleftrightarrow> x \<in> insert k (R\<^sup>* `` (R `` {k}))"
    proof
      assume "x \<in> R\<^sup>* `` {k}"
      then have "(k, x) \<in> R\<^sup>*" by simp
      then show "x \<in> insert k (R\<^sup>* `` (R `` {k}))"
        by (cases rule: converse_rtranclE) auto
    next
      assume "x \<in> insert k (R\<^sup>* `` (R `` {k}))"
      then show "x \<in> R\<^sup>* `` {k}"
        by (auto intro: converse_rtrancl_into_rtrancl)
    qed
  qed
  moreover have "R\<^sup>* `` insert k A = R\<^sup>* `` {k} \<union> R\<^sup>* `` A" by blast
  ultimately show ?thesis by simp
qed

lemma prepare_loop_done:
  "length l \<le> i \<Longrightarrow> prepare_loop decls l i st = Some (Inr st)"
  by (subst prepare_loop.simps) simp

lemma prepare_loop_step:
  assumes "i < length l" and "lookup_class (fst (l ! i)) = Some c"
    and "accepts decls c (snd (l ! i))"
  shows "prepare_loop decls l i st =
     prepare_loop decls (l @ map (\<lambda>d. (d, [])) (get_dependencies decls c)) (Suc i)
       (AList.update (fst (l ! i)) (StateInstance c (snd (l ! i))) st)"
  using assms
  by (subst prepare_loop.simps)
     (simp add: get_object_state_instance_def foldl_add_dependency)

lemma prepare_loop_closure:
  assumes wf: "dependencies_well_founded decls S rank"
  shows "\<forall>l i st. M = mset (map (rank \<circ> fst) (drop i l)) \<longrightarrow>
     (\<forall>e \<in> set (drop i l). fst e \<in> S \<and> constructible decls e) \<longrightarrow>
     (\<exists>st'. prepare_loop decls l i st = Some (Inr st') \<and>
        fst ` set st' = fst ` set st \<union> (required_edges decls)\<^sup>* `` (fst ` set (drop i l)) \<and>
        (distinct (map fst st) \<longrightarrow> distinct (map fst st')))"
proof (induction M rule: wf_induct_rule [OF wf_mult [OF wf_less_than]])
  case (1 M)
  show ?case
  proof (intro allI impI)
    fix l :: "(state_key \<times> 'a params) list" and i and st :: "(state_key \<times> 'a state_instance) list"
    assume M: "M = mset (map (rank \<circ> fst) (drop i l))"
      and pend: "\<forall>e \<in> set (drop i l). fst e \<in> S \<and> constructible decls e"
    show "\<exists>st'. prepare_loop decls l i st = Some (Inr st') \<and>
        fst ` set st' = fst ` set st \<union> (required_edges decls)\<^sup>* `` (fst ` set (drop i l)) \<and>
        (distinct (map fst st) \<longrightarrow> distinct (map fst st'))"
    proof (cases "i < length l")
      case False
      then show ?thesis by (simp add: prepare_loop_done)
    next
      case True
      define k where "k = fst (l ! i)"
      define ps where "ps = snd (l ! i)"
      define rest where "rest = drop (Suc i) l"
      have drop: "drop i l = (k, ps) # rest"
        using True by (simp add: k_def ps_def rest_def Cons_nth_drop_Suc)
      from pend drop have kS: "k \<in> S" and "constructible decls (k, ps)" by auto
      then obtain c where c: "lookup_class k = Some c" and acc: "accepts decls c ps"
        by (auto simp: constructible_def)
      define deps where "deps = get_dependencies decls c"
      define l' where "l' = l @ map (\<lambda>d. (d, [])) deps"
      define st1 where "st1 = AList.update k (StateInstance c ps) st"
      have step: "prepare_loop decls l i st = prepare_loop decls l' (Suc i) st1"
        using prepare_loop_step [OF True, of c decls st] c acc
        by (simp add: k_def ps_def l'_def st1_def deps_def)
      have drop': "drop (Suc i) l' = rest @ map (\<lambda>d. (d, [])) deps"
        using True by (simp add: l'_def rest_def)
      have edges: "(k, d) \<in> required_edges decls" if "d \<in> set deps" for d
        using that c by (auto simp: required_edges_def deps_def)
      have dep_ok: "d \<in> S \<and> rank d < rank k \<and> constructible decls (d, [])"
        if "d \<in> set deps" for d
        using wf kS edges [OF that] unfolding dependencies_well_founded_def by blast
      have pend': "\<forall>e \<in> set (drop (Suc i) l'). fst e \<in> S \<and> constructible decls e"
        using pend dep_ok by (auto simp: drop drop')
      let ?I = "mset (map (rank \<circ> fst) rest)"
      let ?K = "mset (map rank deps)"
      have M': "mset (map (rank \<circ> fst) (drop (Suc i) l')) = ?I + ?K"
        by (simp add: drop' comp_def)
      have M_eq: "M = ?I + {#rank k#}"
        by (simp add: M drop)
      have "(?I + ?K, ?I + {#rank k#}) \<in> mult less_than"
        by (rule one_step_implies_mult) (use dep_ok in auto)
      then have less: "(mset (map (rank \<circ> fst) (drop (Suc i) l')), M) \<in> mult less_than"
        by (simp only: M' M_eq)
      note ih = "1.IH" [OF less, THEN spec, of l', THEN spec, of "Suc i", THEN spec, of st1,
          THEN mp, OF refl, THEN mp, OF pend']
      from ih obtain st' where
        run: "prepare_loop decls l' (Suc i) st1 = Some (Inr st')"
        and keys: "fst ` set st' =
          fst ` set st1 \<union> (required_edges decls)\<^sup>* `` (fst ` set (drop (Suc i) l'))"
        and dist: "distinct (map fst st1) \<longrightarrow> distinct (map fst st')"
        by blast
      have keys1: "fst ` set st1 = insert k (fst ` set st)"
        by (simp add: st1_def dom_update)
      have img: "fst ` set (drop (Suc i) l') = fst ` set rest \<union> set deps"
        by (force simp: drop')
      have clos: "(required_edges decls)\<^sup>* `` (fst ` set (drop i l)) =
          insert k ((required_edges decls)\<^sup>* `` set deps) \<union>
          (required_edges decls)\<^sup>* `` (fst ` set rest)"
        using rtrancl_Image_insert [of "required_edges decls" k "fst ` set rest"]
        by (simp add: drop required_edges_Image [OF c] deps_def)
      have "fst ` set st' =
          fst ` set st \<union> (required_edges decls)\<^sup>* `` (fst ` set (drop i l))"
        unfolding keys keys1 img clos by blast
      moreover have "distinct (map fst st) \<longrightarrow> distinct (map fst st')"
        using dist by (simp add: st1_def distinct_update)
      ultimately show ?thesis
        using run by (simp add: step)
    qed
  qed
qed

lemma extend_with_abilities_registered:
  assumes "\<forall>ability \<in> fst ` set abilities. ability \<in> fst ` set ABILITY_TO_STATE_MAPPING"
  shows "extend_with_abilities abilities l =
     Inr (l @ concat (map (\<lambda>(ability, params).
        map (\<lambda>state_name. (Name state_name, params))
          (case map_of ABILITY_TO_STATE_MAPPING ability of None \<Rightarrow> [] | Some ns \<Rightarrow> ns))
        abilities))"
  using assms
proof (induction abilities arbitrary: l)
  case Nil
  then show ?case by simp
next
  case (Cons a abilities)
  obtain ability params where a: "a = (ability, params)" by (cases a)
  with Cons.prems have "ability \<in> fst ` set ABILITY_TO_STATE_MAPPING" by simp
  then obtain ns where ns: "map_of ABILITY_TO_STATE_MAPPING ability = Some ns"
    by (auto dest: weak_map_of_SomeI)
  from Cons.prems have "\<forall>ability \<in> fst ` set abilities.
      ability \<in> fst ` set ABILITY_TO_STATE_MAPPING"
    by simp
  from Cons.IH [OF this] ns show ?case
    by (simp add: a get_state_names_for_ability_def)
qed

lemma initial_entries_keys:
  "fst ` set (initial_entries order abilities) =
     Name ` (set order \<union> ability_state_names abilities)"
proof -
  let ?names = "\<lambda>ability. case map_of ABILITY_TO_STATE_MAPPING ability of
      None \<Rightarrow> [] | Some ns \<Rightarrow> ns"
  have 1: "fst ` set (initial_entries order abilities) =
      Name ` set order \<union> (\<Union>a \<in> set abilities. Name ` set (?names (fst a)))"
    unfolding initial_entries_def
    by (simp add: image_Un image_UN image_image case_prod_unfold)
  have 2: "ability_state_names abilities = (\<Union>a \<in> set abilities. set (?names (fst a)))"
  proof (rule set_eqI)
    fix n
    show "n \<in> ability_state_names abilities \<longleftrightarrow>
        n \<in> (\<Union>a \<in> set abilities. set (?names (fst a)))"
    proof
      assume "n \<in> ability_state_names abilities"
      then obtain a ns where "a \<in> set abilities"
        "map_of ABILITY_TO_STATE_MAPPING (fst a) = Some ns" "n \<in> set ns"
        unfolding ability_state_names_def by blast
      then show "n \<in> (\<Union>a \<in> set abilities. set (?names (fst a)))"
        by (intro UN_I [of a]) simp_all
    next
      assume "n \<in> (\<Union>a \<in> set abilities. set (?names (fst a)))"
      then obtain a where a: "a \<in> set abilities" "n \<in> set (?names (fst a))" by blast
      then obtain ns where "map_of ABILITY_TO_STATE_MAPPING (fst a) = Some ns" "n \<in> set ns"
        by (cases "map_of ABILITY_TO_STATE_MAPPING (fst a)") simp_all
      with a(1) show "n \<in> ability_state_names abilities"
        unfolding ability_state_names_def by blast
    qed
  qed
  show ?thesis
    unfolding 1 2 by (simp add: image_Un image_UN)
qed

text \<open>
  When the run succeeds. Let every declared ability be registered, let every entry of the
  work list name a registered state whose constructor accepts its parameters, and let the
  required dependencies reached from them name registered states and contain no cycle (a
  rank decreases along them). Then \<^verbatim>\<open>prepare_object_states\<close> returns, whatever the
  \<^verbatim>\<open>online\<close> flag and whatever states the object had before, a dictionary whose key set
  is exactly the default states, the states implied by the abilities and everything
  reachable from them along required dependencies; no key occurs twice; and running it
  again on the result returns the same dictionary.
\<close>

lemma prepare_object_states_closed_keys:
  assumes "set order = DEFAULT_STATE_SET"
    and "\<forall>ability \<in> fst ` set abilities. ability \<in> fst ` set ABILITY_TO_STATE_MAPPING"
    and "\<forall>e \<in> set (initial_entries order abilities). fst e \<in> S \<and> constructible decls e"
    and "dependencies_well_founded decls S rank"
  shows "\<exists>states.
     prepare_object_states decls order old_states (Some abilities) online = Some (Inr states) \<and>
     fst ` set states = expected_keys decls abilities \<and>
     distinct (map fst states) \<and>
     prepare_object_states decls order states (Some abilities) online = Some (Inr states)"
proof -
  let ?l = "initial_entries order abilities"
  have run: "prepare_object_states decls order old (Some abilities) online
      = prepare_loop decls ?l 0 []" for old
    using extend_with_abilities_registered [OF assms(2)]
    by (simp add: prepare_object_states_def initial_entries_def)
  have pend: "\<forall>e \<in> set (drop 0 ?l). fst e \<in> S \<and> constructible decls e"
    using assms(3) by simp
  note closure = prepare_loop_closure [OF assms(4),
      of "mset (map (rank \<circ> fst) (drop 0 ?l))", THEN spec, of ?l, THEN spec, of 0,
      THEN spec, of "[]", THEN mp, OF refl, THEN mp, OF pend]
  from closure obtain states where
    loop: "prepare_loop decls ?l 0 [] = Some (Inr states)"
    and keys: "fst ` set states = (required_edges decls)\<^sup>* `` (fst ` set ?l)"
    and dist: "distinct (map fst states)"
    by auto
  have "fst ` set states = expected_keys decls abilities"
    by (simp add: keys initial_entries_keys expected_keys_def assms(1))
  with loop dist show ?thesis
    by (simp add: run)
qed

lemma listed_default_order_set: "set listed_default_order = DEFAULT_STATE_SET"
  by (simp add: listed_default_order_def DEFAULT_STATE_SET_def)

lemma dustable_entries:
  "initial_entries listed_default_order [(''dustable'', [])] =
     [(Name ''onTop'', []), (Name ''inside'', []), (Name ''nextTo'', []), (Name ''under'', []),
      (Name ''touching'', []), (Name ''open'', []), (Name ''dirty'', [])]"
  by (simp add: initial_entries_def listed_default_order_def ABILITY_TO_STATE_MAPPING_def)

lemma registry_lookups:
  "map_of STATE_NAME_TO_CLASS_MAPPING ''onTop'' = Some OnTop"
  "map_of STATE_NAME_TO_CLASS_MAPPING ''inside'' = Some Inside"
  "map_of STATE_NAME_TO_CLASS_MAPPING ''nextTo'' = Some NextTo"
  "map_of STATE_NAME_TO_CLASS_MAPPING ''under'' = Some Under"
  "map_of STATE_NAME_TO_CLASS_MAPPING ''touching'' = Some Touching"
  "map_of STATE_NAME_TO_CLASS_MAPPING ''open'' = Some Open"
  "map_of STATE_NAME_TO_CLASS_MAPPING ''dirty'' = Some Dirty"
  "map_of STATE_NAME_TO_CLASS_MAPPING ''aabb'' = Some AABB"
  "map_of STATE_NAME_TO_CLASS_MAPPING ''stained'' = Some Stained"
  by (simp_all add: STATE_NAME_TO_CLASS_MAPPING_def)

lemma plain_constructible:
  "lookup_class k = Some c \<Longrightarrow> constructible plain_declarations (k, [])"
  by (simp add: constructible_def accepts_def plain_declarations_def)

lemma dustable_well_founded:
  "dependencies_well_founded plain_declarations dustable_keys dustable_rank"
  unfolding dependencies_well_founded_def
proof (intro allI impI, elim conjE)
  fix k d
  assume k: "k \<in> dustable_keys" and e: "(k, d) \<in> required_edges plain_declarations"
  from e obtain c where c: "lookup_class k = Some c"
    and d: "d \<in> set (get_dependencies plain_declarations c)"
    by (auto simp: required_edges_def)
  from k c have "c \<noteq> Stained"
    by (auto simp: dustable_keys_def registry_lookups)
  with d have "c = Dirty \<and> d = Name ''aabb''"
    by (auto simp: get_dependencies_def plain_declarations_def split: if_splits)
  moreover from this c k have "k = Name ''dirty''"
    by (auto simp: dustable_keys_def registry_lookups)
  ultimately show "d \<in> dustable_keys \<and> dustable_rank d < dustable_rank k \<and>
      constructible plain_declarations (d, [])"
    using plain_constructible [of "Name ''aabb''" AABB]
    by (simp add: dustable_keys_def dustable_rank_def registry_lookups)
qed

lemma dustable_prepared:
  "\<exists>states.
     prepare_object_states plain_declarations listed_default_order old_states
       (Some [(''dustable'', [])]) online = Some (Inr states) \<and>
     fst ` set states = expected_keys plain_declarations [(''dustable'', [])] \<and>
     distinct (map fst states)"
proof -
  have registered: "\<forall>ability \<in> fst ` set [(''dustable'', [] :: unit params)].
      ability \<in> fst ` set ABILITY_TO_STATE_MAPPING"
    by (simp add: ABILITY_TO_STATE_MAPPING_def)
  have entries: "\<forall>e \<in> set (initial_entries listed_default_order [(''dustable'', [])]).
      fst e \<in> dustable_keys \<and> constructible plain_declarations e"
    unfolding dustable_entries
    by (simp add: dustable_keys_def constructible_def accepts_def registry_lookups
        plain_declarations_def)
  from prepare_object_states_closed_keys
    [OF listed_default_order_set registered entries dustable_well_founded, of old_states online]
  show ?thesis by blast
qed

lemma prepare_loop_unfold:
  "i < length l \<Longrightarrow> prepare_loop decls l i st =
     (case get_object_state_instance decls (fst (l ! i)) (Some (snd (l ! i))) True of
        Inl e \<Rightarrow> Some (Inl e)
      | Inr inst \<Rightarrow>
          prepare_loop decls (l @ map (\<lambda>d. (d, [])) (instance_dependencies decls inst)) (Suc i)
            (AList.update (fst (l ! i)) inst st))"
  by (subst prepare_loop.simps) (simp add: foldl_add_dependency split: sum.splits)

text \<open>
  An entry of the work list whose key is not registered ends the run: if the loop reaches
  it, \<^verbatim>\<open>get_object_state_instance\<close> fails its assertion, and before that the loop can only
  raise or go on. So with such an entry ahead, no dictionary is returned.
\<close>

lemma prepare_loop_unregistered_ahead:
  assumes "i \<le> j" and "j < length l" and "lookup_class (fst (l ! j)) = None"
  shows "prepare_loop decls l i st \<noteq> Some (Inr result)"
  using assms
proof (induction "j - i" arbitrary: i l st)
  case 0
  then have "i = j" by simp
  with 0 show ?case
    by (simp add: prepare_loop_unfold get_object_state_instance_def)
next
  case (Suc n)
  then have i: "i < length l" and le: "Suc i \<le> j" and n: "n = j - Suc i"
    by simp_all
  show ?case
  proof (cases "get_object_state_instance decls (fst (l ! i)) (Some (snd (l ! i))) True")
    case (Inl e)
    with i show ?thesis by (simp add: prepare_loop_unfold)
  next
    case (Inr inst)
    let ?l = "l @ map (\<lambda>d. (d, [])) (instance_dependencies decls inst)"
    have len: "j < length ?l" using Suc.prems(2) by simp
    have same: "lookup_class (fst (?l ! j)) = None"
      using Suc.prems(2,3) by (simp add: nth_append)
    from Suc.hyps(1) [OF n le len same]
    have "prepare_loop decls ?l (Suc i) (AList.update (fst (l ! i)) inst st) \<noteq> Some (Inr result)" .
    with i Inr show ?thesis by (simp add: prepare_loop_unfold)
  qed
qed

text \<open>
  The state \<^verbatim>\<open>'stained'\<close> is such an entry in waiting: once instantiated it appends its
  required dependency, the class \<^verbatim>\<open>AABB\<close>, which is no key of the registry. This holds
  for every declaration of the classes that are not among the sources.
\<close>

lemma prepare_loop_stained_ahead:
  assumes "i \<le> j" and "j < length l" and "fst (l ! j) = Name ''stained''"
  shows "prepare_loop decls l i st \<noteq> Some (Inr result)"
  using assms
proof (induction "j - i" arbitrary: i l st)
  case 0
  then have ij: "i = j" by simp
  show ?case
  proof (cases "accepts decls Stained (snd (l ! j))")
    case False
    with 0 ij show ?thesis
      by (simp add: prepare_loop_unfold get_object_state_instance_def registry_lookups)
  next
    case True
    let ?l = "l @ [(Class AABB, [])]"
    have "prepare_loop decls ?l (Suc j)
        (AList.update (fst (l ! j)) (StateInstance Stained (snd (l ! j))) st) \<noteq> Some (Inr result)"
      using "0.prems"(2)
      by (intro prepare_loop_unregistered_ahead [where j = "length l"]) simp_all
    with 0 ij True show ?thesis
      by (simp add: prepare_loop_unfold get_object_state_instance_def registry_lookups
          get_dependencies_def)
  qed
next
  case (Suc n)
  then have i: "i < length l" and le: "Suc i \<le> j" and n: "n = j - Suc i"
    by simp_all
  show ?case
  proof (cases "get_object_state_instance decls (fst (l ! i)) (Some (snd (l ! i))) True")
    case (Inl e)
    with i show ?thesis by (simp add: prepare_loop_unfold)
  next
    case (Inr inst)
    let ?l = "l @ map (\<lambda>d. (d, [])) (instance_dependencies decls inst)"
    have len: "j < length ?l" using Suc.prems(2) by simp
    have same: "fst (?l ! j) = Name ''stained''"
      using Suc.prems(2,3) by (simp add: nth_append)
    from Suc.hyps(1) [OF n le len same]
    have "prepare_loop decls ?l (Suc i) (AList.update (fst (l ! i)) inst st) \<noteq> Some (Inr result)" .
    with i Inr show ?thesis by (simp add: prepare_loop_unfold)
  qed
qed

lemma extend_with_abilities_entry:
  assumes "extend_with_abilities abilities l0 = Inr l"
    and "(ability, params) \<in> set abilities"
    and "map_of ABILITY_TO_STATE_MAPPING ability = Some state_names"
    and "state_name \<in> set state_names"
  shows "(Name state_name, params) \<in> set l"
proof -
  have keep: "extend_with_abilities abilities l0 = Inr l \<Longrightarrow> set l0 \<subseteq> set l" for abilities l0
  proof (induction abilities arbitrary: l0)
    case Nil
    then show ?case by simp
  next
    case (Cons a abilities)
    obtain ab ps where a: "a = (ab, ps)" by (cases a)
    from Cons.prems a obtain ns where
      rest: "extend_with_abilities abilities (l0 @ map (\<lambda>n. (Name n, ps)) ns) = Inr l"
      by (auto split: sum.splits)
    from Cons.IH [OF rest] show ?case by simp
  qed
  from assms show ?thesis
  proof (induction abilities arbitrary: l0)
    case Nil
    then show ?case by simp
  next
    case (Cons a abilities)
    obtain ab ps where a: "a = (ab, ps)" by (cases a)
    from Cons.prems(1) a obtain ns where
      ns: "get_state_names_for_ability ab = Inr ns"
      and rest: "extend_with_abilities abilities (l0 @ map (\<lambda>n. (Name n, ps)) ns) = Inr l"
      by (auto split: sum.splits)
    show ?case
    proof (cases "(ability, params) = a")
      case True
      with a ns Cons.prems(3) have "ns = state_names"
        by (simp add: get_state_names_for_ability_def)
      with True a Cons.prems(4)
      have "(Name state_name, params) \<in> set (l0 @ map (\<lambda>n. (Name n, ps)) ns)"
        by auto
      with keep [OF rest] show ?thesis by blast
    next
      case False
      with Cons.prems(2) have "(ability, params) \<in> set abilities" by auto
      from Cons.IH [OF rest this Cons.prems(3,4)] show ?thesis .
    qed
  qed
qed

lemma scrubbable_never_prepared:
  assumes "(''scrubbable'', params) \<in> set abilities"
  shows "prepare_object_states decls default_order old_states (Some abilities) online
     \<noteq> Some (Inr result)"
proof (cases "extend_with_abilities abilities
    (map (\<lambda>state_name. (Name state_name, [])) default_order)")
  case (Inl e)
  then show ?thesis by (simp add: prepare_object_states_def)
next
  case (Inr l)
  have "map_of ABILITY_TO_STATE_MAPPING ''scrubbable'' = Some [''stained'']"
    by (simp add: ABILITY_TO_STATE_MAPPING_def)
  from extend_with_abilities_entry [OF Inr assms this]
  have "(Name ''stained'', params) \<in> set l" by simp
  then obtain j where j: "j < length l" and lj: "l ! j = (Name ''stained'', params)"
    by (auto simp: in_set_conv_nth)
  from lj have "fst (l ! j) = Name ''stained''" by simp
  from prepare_loop_stained_ahead [OF _ j this, of 0 decls "[]" result]
  have "prepare_loop decls l 0 [] \<noteq> Some (Inr result)" by simp
  with Inr show ?thesis by (simp add: prepare_object_states_def)
qed

text \<open>
  C2 (the source departs from it). For the registered ability \<^verbatim>\<open>scrubbable\<close>, with no
  parameters, \<^verbatim>\<open>prepare_object_states\<close> produces no state map: \<^verbatim>\<open>Stained.get_dependencies\<close>
  returns the class \<^verbatim>\<open>AABB\<close> where the registry has the name \<^verbatim>\<open>'aabb'\<close>, the class is
  appended to the work list, and \<^verbatim>\<open>get_object_state_instance\<close> fails its assertion on it.
  The claim asks for the default states, \<^verbatim>\<open>'stained'\<close> and \<^verbatim>\<open>'aabb'\<close>. For the ability
  \<^verbatim>\<open>dustable\<close>, whose state \<^verbatim>\<open>Dirty\<close> names the same dependency by \<^verbatim>\<open>'aabb'\<close>, the same call
  returns the key set the claim asks for, without repetition.
\<close>

theorem prepare_object_states_scrubbable_raises:
  "prepare_object_states plain_declarations listed_default_order old_states
     (Some [(''scrubbable'', [])]) online = Some (Inl AssertionError) \<and>
   (\<exists>states.
     prepare_object_states plain_declarations listed_default_order old_states
       (Some [(''dustable'', [])]) online = Some (Inr states) \<and>
     fst ` set states = expected_keys plain_declarations [(''dustable'', [])] \<and>
     distinct (map fst states))"
proof -
  have "prepare_object_states plain_declarations listed_default_order old_states
      (Some [(''scrubbable'', [])]) online = Some (Inl AssertionError)"
    by (simp add: prepare_object_states_def get_state_names_for_ability_def
        ABILITY_TO_STATE_MAPPING_def listed_default_order_def prepare_loop_unfold
        get_object_state_instance_def registry_lookups accepts_def plain_declarations_def
        get_dependencies_def)
  with dustable_prepared [of old_states online] show ?thesis by simp
qed

end
